theory Spec2Isabelle
  imports Complex_Main "HOL-Library.AList"
begin

section \<open>JavaScript values\<close>

text \<open>
  The schema compiler of \<^verbatim>\<open>FormKitSchema.ts\<close> works on plain JavaScript data: the
  schema, the data object and the scope bindings. A number is a double; what the code
  asks of a number is whether it is NaN, whether it is a valid array length and
  whether it is truthy, so a number is a finite value (a rational, which every finite
  double is), NaN or an infinity. An object is the list of its own enumerable
  properties in the order \<^verbatim>\<open>for ... in\<close> enumerates them, with distinct keys; an array
  is the list of its elements (no holes). Inherited properties are not modelled: a
  read of a key the value does not own gives \<open>Undefined\<close>.
\<close>

datatype jsnum = Fin rat | NaN | PosInf | NegInf

datatype jsval = Undefined | Null | Bool bool | Num jsnum | Str string
  | Obj "(string \<times> jsval) list" | Arr "jsval list"

datatype error = TypeError | RangeError

fun typeof :: "jsval \<Rightarrow> string" where
  "typeof Undefined = ''undefined''"
| "typeof Null = ''object''"
| "typeof (Bool b) = ''boolean''"
| "typeof (Num n) = ''number''"
| "typeof (Str s) = ''string''"
| "typeof (Obj kvs) = ''object''"
| "typeof (Arr xs) = ''object''"

text \<open>Truthiness, as the conditional operator and \<^verbatim>\<open>&&\<close> read a value.\<close>

fun truthy :: "jsval \<Rightarrow> bool" where
  "truthy Undefined = False"
| "truthy Null = False"
| "truthy (Bool b) = b"
| "truthy (Num n) = (n \<noteq> NaN \<and> n \<noteq> Fin 0)"
| "truthy (Str s) = (s \<noteq> [])"
| "truthy (Obj kvs) = True"
| "truthy (Arr xs) = True"

text \<open>The decimal string of an array index, the key under which an element is read.\<close>

fun nat_str :: "nat \<Rightarrow> string" where
  "nat_str n = (if n < 10 then [''0123456789'' ! n]
                else nat_str (n div 10) @ [''0123456789'' ! (n mod 10)])"

declare nat_str.simps [simp del]

definition index_of :: "nat \<Rightarrow> string \<Rightarrow> nat option" where
  "index_of n k = find (\<lambda>i. nat_str i = k) [0..<n]"

text \<open>
  \<^verbatim>\<open>for (const key in values)\<close>: the own enumerable keys. A primitive has none (and
  \<^verbatim>\<open>null\<close> and \<^verbatim>\<open>undefined\<close> give no iteration at all).
\<close>

fun own_keys :: "jsval \<Rightarrow> string list" where
  "own_keys (Obj kvs) = map fst kvs"
| "own_keys (Arr xs) = map nat_str [0..<length xs]"
| "own_keys (Str s) = map nat_str [0..<length s]"
| "own_keys v = []"

text \<open>\<^verbatim>\<open>obj[key]\<close> on a value that is neither \<^verbatim>\<open>null\<close> nor \<^verbatim>\<open>undefined\<close>.\<close>

fun getv :: "jsval \<Rightarrow> string \<Rightarrow> jsval" where
  "getv (Obj kvs) k = (case map_of kvs k of Some v \<Rightarrow> v | None \<Rightarrow> Undefined)"
| "getv (Arr xs) k =
     (if k = ''length'' then Num (Fin (of_nat (length xs)))
      else case index_of (length xs) k of Some i \<Rightarrow> xs ! i | None \<Rightarrow> Undefined)"
| "getv (Str s) k =
     (if k = ''length'' then Num (Fin (of_nat (length s)))
      else case index_of (length s) k of Some i \<Rightarrow> Str [s ! i] | None \<Rightarrow> Undefined)"
| "getv v k = Undefined"

text \<open>\<^verbatim>\<open>obj[key]\<close>: reading a property of \<^verbatim>\<open>null\<close> or \<^verbatim>\<open>undefined\<close> throws a TypeError.\<close>

definition read_prop :: "jsval \<Rightarrow> string \<Rightarrow> error + jsval" where
  "read_prop obj k = (if obj = Undefined \<or> obj = Null then Inl TypeError else Inr (getv obj k))"

text \<open>
  Modelled from the spec: \<^verbatim>\<open>has\<close> of \<^verbatim>\<open>@formkit/utils\<close> is imported and not part of the
  source file; the spec says of it that the parent object must "explicitly possess
  that key", that is, the key is an own property (\<^verbatim>\<open>hasOwnProperty\<close>). An array owns
  its indices and \<^verbatim>\<open>length\<close>.
\<close>

fun has :: "jsval \<Rightarrow> string \<Rightarrow> bool" where
  "has (Obj kvs) k = (k \<in> set (map fst kvs))"
| "has (Arr xs) k = (k = ''length'' \<or> index_of (length xs) k \<noteq> None)"
| "has (Str s) k = (k = ''length'' \<or> index_of (length s) k \<noteq> None)"
| "has v k = False"

text \<open>\<^verbatim>\<open>token.split('.')\<close>: never the empty list.\<close>

fun split_dot :: "string \<Rightarrow> string list" where
  "split_dot [] = [[]]"
| "split_dot (c # cs) =
     (if c = CHR ''.'' then [] # split_dot cs
      else (case split_dot cs of p # ps \<Rightarrow> (c # p) # ps | [] \<Rightarrow> [[c]]))"

section \<open>findValue\<close>

text \<open>
  \<^verbatim>\<open>path.reduce((obj, segment, i) => ..., set)\<close> of \<^verbatim>\<open>findValue\<close>, returning the
  variable \<^verbatim>\<open>found\<close> it leaves: each step reads \<^verbatim>\<open>obj[segment]\<close> (which throws on
  \<^verbatim>\<open>null\<close>, whose \<^verbatim>\<open>typeof\<close> is \<^verbatim>\<open>'object'\<close>), the last step sets \<^verbatim>\<open>found\<close> when
  \<^verbatim>\<open>has(obj, segment)\<close>, and the walk goes on in \<^verbatim>\<open>obj[segment]\<close> when that is an
  object and in \<^verbatim>\<open>{}\<close> otherwise.
\<close>

fun reduce_path :: "jsval \<Rightarrow> string list \<Rightarrow> error + jsval" where
  "reduce_path obj [] = Inr Undefined"
| "reduce_path obj [segment] =
     (case read_prop obj segment of
        Inl e \<Rightarrow> Inl e
      | Inr v \<Rightarrow> Inr (if has obj segment then v else Undefined))"
| "reduce_path obj (segment # rest) =
     (case read_prop obj segment of
        Inl e \<Rightarrow> Inl e
      | Inr v \<Rightarrow> reduce_path (if typeof v = ''object'' then v else Obj []) rest)"

fun findValue :: "jsval list \<Rightarrow> string list \<Rightarrow> error + jsval" where
  "findValue [] path = Inr Undefined"
| "findValue (s # sets) path =
     (case reduce_path s path of
        Inl e \<Rightarrow> Inl e
      | Inr found \<Rightarrow> if found \<noteq> Undefined then Inr found else findValue sets path)"

section \<open>The scope store: getRef and setValue\<close>

text \<open>
  The context object \<^verbatim>\<open>data\<close>: the root data and the map \<^verbatim>\<open>__FK_SCP\<close> from scope
  symbols to binding objects. A symbol is a natural number, \<^verbatim>\<open>Symbol()\<close> a counter.
  The key \<^verbatim>\<open>__FK_SCP\<close> itself is not a property of \<open>root\<close> here.
\<close>

record ctx =
  root :: jsval
  FK_SCP :: "nat \<Rightarrow> jsval option"

text \<open>
  \<^verbatim>\<open>scopes.map((scope) => data.__FK_SCP.get(scope) || false).filter((s) => s)\<close>
  followed by \<^verbatim>\<open>sets.push(data)\<close>.
\<close>

definition scope_sets :: "ctx \<Rightarrow> nat list \<Rightarrow> jsval list" where
  "scope_sets data scopes =
     filter truthy
       (map (\<lambda>scope. case FK_SCP data scope of Some s \<Rightarrow> s | None \<Rightarrow> Bool False) scopes)
     @ [root data]"

text \<open>
  One run of the effect that \<^verbatim>\<open>getRef\<close> registers: from the value the reference
  holds to the value it holds afterwards. \<^verbatim>\<open>getRef\<close> creates the reference with
  \<^verbatim>\<open>null\<close> and runs the effect once; the reactive substrate runs it again after a
  change of what it read.
\<close>

definition getRef_effect :: "ctx \<Rightarrow> nat list \<Rightarrow> string \<Rightarrow> jsval \<Rightarrow> error + jsval" where
  "getRef_effect data scopes token value =
     (case findValue (scope_sets data scopes) (split_dot token) of
        Inl e \<Rightarrow> Inl e
      | Inr foundValue \<Rightarrow> Inr (if foundValue \<noteq> Undefined then foundValue else value))"

definition getRef :: "ctx \<Rightarrow> nat list \<Rightarrow> string \<Rightarrow> error + jsval" where
  "getRef data scopes token = getRef_effect data scopes token Null"

text \<open>\<^verbatim>\<open>Object.assign(target, source)\<close> on property lists: later writes of a key win.\<close>

definition assign :: "(string \<times> jsval) list \<Rightarrow> (string \<times> jsval) list \<Rightarrow> (string \<times> jsval) list" where
  "assign target source = fold (\<lambda>(k, v) t. AList.update k v t) source target"

text \<open>
  \<^verbatim>\<open>setValue(data, scopes, key, value)\<close>; \<open>newData\<close> is \<^verbatim>\<open>{ [key]: value }\<close> for a string
  key and the record itself otherwise. With an empty path the scope is \<^verbatim>\<open>undefined\<close>,
  a key that no symbol of a path equals: the symbol-keyed store is unchanged.
\<close>

datatype keyarg = Key string | Rec "(string \<times> jsval) list"

definition setValue :: "ctx \<Rightarrow> nat list \<Rightarrow> keyarg \<Rightarrow> jsval \<Rightarrow> ctx" where
  "setValue data scopes key value =
     (if scopes = [] then data
      else
        (let scope = last scopes;
             newData = (case key of Key k \<Rightarrow> [(k, value)] | Rec r \<Rightarrow> r)
         in case FK_SCP data scope of
              Some (Obj old) \<Rightarrow> data\<lparr>FK_SCP := (FK_SCP data)(scope \<mapsto> Obj (assign old newData))\<rparr>
            | _ \<Rightarrow> data\<lparr>FK_SCP := (FK_SCP data)(scope \<mapsto> Obj newData)\<rparr>))"

section \<open>The iteration scope stack: checkScope\<close>

text \<open>
  \<^verbatim>\<open>iterationScopes\<close> is a module-level array; every function that reads or changes it
  takes it as an argument here, the oldest frame first (\<^verbatim>\<open>push\<close> appends).
\<close>

definition checkScope :: "jsval list \<Rightarrow> jsval \<Rightarrow> string \<Rightarrow> error + jsval" where
  "checkScope iterationScopes value token =
     (if iterationScopes \<noteq> [] then
        (case findValue iterationScopes (split_dot token) of
           Inl e \<Rightarrow> Inl e
         | Inr foundValue \<Rightarrow> Inr (if foundValue \<noteq> Undefined then foundValue else value))
      else Inr value)"

section \<open>What the host supplies\<close>

text \<open>
  Three things the code calls are not part of the source file and are parameters here.
  \<open>ev h expr resolver\<close> is the value of the closure \<^verbatim>\<open>compile(expr).provide(f)\<close> of
  \<^verbatim>\<open>@formkit/schema\<close> when called, \<open>resolver token\<close> being what the getter \<^verbatim>\<open>f(token)\<close>
  returns at that moment; the spec treats the expression compiler as an opaque service.
  \<open>num_str\<close> is the string of a number (\<^verbatim>\<open>String(n)\<close>) and \<open>str_num\<close> the number of a
  string (\<^verbatim>\<open>Number(s)\<close>) of the language.
\<close>

record host =
  ev :: "jsval \<Rightarrow> (string \<Rightarrow> error + jsval) \<Rightarrow> error + jsval"
  num_str :: "jsnum \<Rightarrow> string"
  str_num :: "string \<Rightarrow> jsnum"

text \<open>\<^verbatim>\<open>String(v)\<close> and \<^verbatim>\<open>Number(v)\<close>; an array joins its elements with commas, a plain
  object is \<^verbatim>\<open>[object Object]\<close>, which is not a number.\<close>

fun join_comma :: "string list \<Rightarrow> string" where
  "join_comma [] = []"
| "join_comma [s] = s"
| "join_comma (s # ss) = s @ '','' @ join_comma ss"

fun js_String :: "host \<Rightarrow> jsval \<Rightarrow> string" where
  "js_String h Undefined = ''undefined''"
| "js_String h Null = ''null''"
| "js_String h (Bool b) = (if b then ''true'' else ''false'')"
| "js_String h (Num n) = num_str h n"
| "js_String h (Str s) = s"
| "js_String h (Obj kvs) = ''[object Object]''"
| "js_String h (Arr xs) =
     join_comma (map (\<lambda>x. if x = Undefined \<or> x = Null then [] else js_String h x) xs)"

fun js_Number :: "host \<Rightarrow> jsval \<Rightarrow> jsnum" where
  "js_Number h Undefined = NaN"
| "js_Number h Null = Fin 0"
| "js_Number h (Bool b) = (if b then Fin 1 else Fin 0)"
| "js_Number h (Num n) = n"
| "js_Number h (Str s) = str_num h s"
| "js_Number h (Obj kvs) = NaN"
| "js_Number h (Arr xs) = str_num h (js_String h (Arr xs))"

text \<open>The global \<^verbatim>\<open>isNaN(v)\<close> converts its argument to a number first.\<close>

definition isNaN :: "host \<Rightarrow> jsval \<Rightarrow> bool" where
  "isNaN h v = (js_Number h v = NaN)"

text \<open>
  \<^verbatim>\<open>Array(n)\<close> for a number \<open>n\<close>: the length of the new array, or a RangeError when
  \<open>n\<close> is not an integer between 0 and \<open>2^32 - 1\<close>.
\<close>

definition new_Array :: "jsnum \<Rightarrow> error + nat" where
  "new_Array n =
     (case n of
        Fin q \<Rightarrow> if q = of_int \<lfloor>q\<rfloor> \<and> 0 \<le> q \<and> q < 2 ^ 32 then Inr (nat \<lfloor>q\<rfloor>)
                 else Inl RangeError
      | _ \<Rightarrow> Inl RangeError)"

section \<open>parseAttrs\<close>

text \<open>
  Modelled from the spec: \<^verbatim>\<open>isConditional\<close> of \<^verbatim>\<open>@formkit/schema\<close> and \<^verbatim>\<open>isPojo\<close> of
  \<^verbatim>\<open>@formkit/utils\<close> are imported and not part of the source file. The spec calls
  conditional an "if/then/else" object whose else is optional, so \<open>isConditional\<close> asks
  for the keys \<^verbatim>\<open>if\<close> and \<^verbatim>\<open>then\<close>; a "nested plain object" is an object that is not
  an array.
\<close>

definition isConditional :: "jsval \<Rightarrow> bool" where
  "isConditional v = (has v ''if'' \<and> has v ''then'')"

fun isPojo :: "jsval \<Rightarrow> bool" where
  "isPojo (Obj kvs) = True"
| "isPojo v = False"

text \<open>\<^verbatim>\<open>value.startsWith('$')\<close>, and the test of a dynamic attribute value:
  \<^verbatim>\<open>typeof value === 'string' && value.startsWith('$') && value.length > 1\<close>.\<close>

definition startsWith_sigil :: "string \<Rightarrow> bool" where
  "startsWith_sigil s = (case s of [] \<Rightarrow> False | c # cs \<Rightarrow> c = CHR ''$'')"

fun is_dynamic :: "jsval \<Rightarrow> bool" where
  "is_dynamic (Str s) = (startsWith_sigil s \<and> length s > 1)"
| "is_dynamic v = False"

text \<open>
  The closures that \<^verbatim>\<open>parseAttrs\<close> and \<^verbatim>\<open>parseConditionAttr\<close> return, as data: \<open>ANull\<close>
  is \<^verbatim>\<open>() => null\<close>; \<open>AMap\<close> is the closure over \<^verbatim>\<open>attrs\<close> and \<^verbatim>\<open>setters\<close>, one entry
  for each key in the order of the loop (a static value, or the setter of a dynamic
  value, of a conditional or of a nested map); \<open>CondAttr\<close> is
  \<^verbatim>\<open>() => (condition() ? a() : b())\<close>. All of them close over the same \<^verbatim>\<open>scopes\<close>.
\<close>

datatype cattrs = ANull | AMap "(string \<times> cattr) list" | ACondRoot ccond
  and cattr = AStatic jsval | ADynamic jsval | ACond ccond | ASub cattrs
  and ccond = CondAttr jsval cbranch cbranch
  and cbranch = BAttrs cattrs | BValue jsval

text \<open>The recursion of parseAttrs goes into property values, which are smaller.\<close>

lemma size_getv_object:
  "typeof (getv v k) = ''object'' \<Longrightarrow> truthy (getv v k) \<or> has v k \<Longrightarrow> size (getv v k) < size v"
proof (cases v)
  case (Obj kvs)
  show ?thesis
  proof (cases "map_of kvs k")
    case None
    then show ?thesis using Obj by simp
  next
    case (Some a)
    then have "(k, a) \<in> set kvs" by (rule map_of_SomeD)
    then have "size a \<le> size_list (size_prod (\<lambda>_. 0) size) kvs"
      by (rule size_list_estimation') simp
    then show ?thesis using Obj Some by simp
  qed
next
  case (Arr xs)
  show ?thesis
  proof (cases "k = ''length''")
    case True
    then show ?thesis using Arr by simp
  next
    case False
    show ?thesis
    proof (cases "index_of (length xs) k")
      case None
      then show ?thesis using Arr False by simp
    next
      case (Some i)
      then have "i < length xs"
        by (auto simp: index_of_def find_Some_iff)
      then have "xs ! i \<in> set xs" by simp
      then have "size (xs ! i) \<le> size_list size xs"
        by (rule size_list_estimation') simp
      then show ?thesis using Arr False Some by simp
    qed
  qed
qed (auto split: option.splits if_splits)

lemma size_getv_has:
  "typeof (getv v k) = ''object'' \<Longrightarrow> has (getv v k) k' \<Longrightarrow> size (getv v k) < size v"
  using size_getv_object [of v k] by (cases "getv v k") auto

lemma size_getv_truthy:
  "truthy (getv v k) \<Longrightarrow> typeof (getv v k) = ''object'' \<Longrightarrow> size (getv v k) < size v"
  using size_getv_object [of v k] by simp

lemma size_getv_own:
  "has v k \<Longrightarrow> typeof (getv v k) = ''object'' \<Longrightarrow> size (getv v k) < size v"
  using size_getv_object [of v k] by simp

lemma size_getv_pojo: "isPojo (getv v k) \<Longrightarrow> size (getv v k) < size v"
  using size_getv_object [of v k] by (cases "getv v k") auto

lemma object_truthy: "typeof v = ''object'' \<Longrightarrow> has v k \<Longrightarrow> truthy v"
  by (cases v) auto

lemma isPojo_truthy: "isPojo v \<Longrightarrow> truthy v"
  by (cases v) auto

function parseAttrs :: "jsval \<Rightarrow> cattrs"
  and parseConditionAttr :: "jsval \<Rightarrow> jsval \<Rightarrow> ccond" where
  "parseAttrs unparsedAttrs =
     (if truthy unparsedAttrs then
        if isConditional unparsedAttrs then ACondRoot (parseConditionAttr unparsedAttrs (Obj []))
        else AMap (map (\<lambda>attr.
               (attr,
                let value = getv unparsedAttrs attr in
                if is_dynamic value then ADynamic value
                else if typeof value = ''object'' \<and> isConditional value
                then ACond (parseConditionAttr value Null)
                else if typeof value = ''object'' \<and> isPojo value
                then ASub (parseAttrs value)
                else AStatic value)) (own_keys unparsedAttrs))
      else ANull)"
| "parseConditionAttr attr dflt =
     CondAttr (getv attr ''if'')
       (if truthy (getv attr ''then'') \<and> typeof (getv attr ''then'') = ''object''
        then BAttrs (parseAttrs (getv attr ''then'')) else BValue (getv attr ''then''))
       (if has attr ''else'' \<and> typeof (getv attr ''else'') = ''object''
        then BAttrs (parseAttrs (getv attr ''else''))
        else if has attr ''else'' then BValue (getv attr ''else'') else BValue dflt)"
  by pat_completeness auto
termination
proof (relation "measure (\<lambda>x. case x of Inl v \<Rightarrow> 2 * size v + 1 | Inr (v, d) \<Rightarrow> 2 * size v)",
    goal_cases)
  case 1
  show ?case by simp
next
  case (2 unparsedAttrs)
  show ?case by simp
next
  case (3 unparsedAttrs x xa)
  then show ?case
    using size_getv_has [of unparsedAttrs x "''if''"] by (simp add: isConditional_def)
next
  case (4 unparsedAttrs x xa)
  then show ?case
    using size_getv_pojo [of unparsedAttrs x] by simp
next
  case (5 attr dflt)
  then show ?case
    using size_getv_truthy [of attr "''then''"] by simp
next
  case (6 attr dflt)
  then show ?case
    using size_getv_own [of attr "''else''"] by simp
qed

declare parseAttrs.simps [simp del] parseConditionAttr.simps [simp del]

section \<open>The schema and the compiled nodes\<close>

text \<open>
  A schema node is a string or an object with the optional keys \<^verbatim>\<open>$el\<close>, \<^verbatim>\<open>attrs\<close>,
  \<^verbatim>\<open>$cmp\<close>, \<^verbatim>\<open>props\<close>, \<^verbatim>\<open>if\<close>, \<^verbatim>\<open>then\<close>, \<^verbatim>\<open>else\<close>, \<^verbatim>\<open>children\<close>, \<^verbatim>\<open>for\<close> and
  \<^verbatim>\<open>let\<close> (\<open>None\<close>, or \<open>Undefined\<close> for the two attribute maps, when the key is absent).
  A component is named; its resolution in the library or by the host is not modelled.
  The names of a \<^verbatim>\<open>for\<close> statement are strings (\<^verbatim>\<open>String(node.for[1])\<close> is taken).
\<close>

datatype elem = Tag string | Component string

datatype for_stmt = For2 string jsval | For3 string string jsval

datatype node =
    StrNode string
  | ObjNode (n_el: "string option") (n_attrs: jsval) (n_cmp: "string option") (n_props: jsval)
      (n_if: "string option") (n_then: "nodes option") (n_else: "nodes option")
      (n_children: "children option") (n_for: "for_stmt option")
      (n_let: "(string \<times> jsval) list option")
  and nodes = Single node | Many "node list"
  and children = ChildStr string | ChildNodes "node list" | ChildCond string nodes "nodes option"

fun nodes_truthy :: "nodes \<Rightarrow> bool" where
  "nodes_truthy (Single (StrNode s)) = (s \<noteq> [])"
| "nodes_truthy ns = True"

text \<open>
  \<open>render_node\<close> is the tuple that \<^verbatim>\<open>parseNode\<close> returns, and with it the closure that
  \<^verbatim>\<open>createElement\<close> builds from that tuple: condition (\<open>None\<close> for \<^verbatim>\<open>false\<close>), element,
  attrs, children, alternate, scopes, iterator. A compiled expression is the
  expression itself; the scopes it closes over are those of its node.
\<close>

datatype getvalues = GetDynamic jsval | GetStatic jsval

datatype iterator = Iterator getvalues string "string option"

datatype render_node =
    RenderNode (r_condition: "jsval option") (r_element: "elem option") (r_attrs: cattrs)
      (r_children: "render_children option") (r_alternate: "render_schema option")
      (r_scopes: "nat list") (r_iterator: "iterator option")
  and render_children = TextChildren string | DynamicChildren jsval
    | SchemaChildren render_schema | CondChildren jsval render_schema "render_schema option"
  and render_schema = RenderMany "render_node list" | RenderOne render_node

section \<open>parseNode, parseCondition and parseSchema\<close>

text \<open>A string child is dynamic when it starts with the sigil and is longer than one
  character; the values of a \<^verbatim>\<open>for\<close> are dynamic when they are a string that starts with
  the sigil.\<close>

definition string_children :: "string \<Rightarrow> render_children" where
  "string_children s =
     (if startsWith_sigil s \<and> length s > 1 then DynamicChildren (Str s) else TextChildren s)"

definition parse_for :: "for_stmt \<Rightarrow> iterator" where
  "parse_for f =
     (let values = (case f of For2 v vals \<Rightarrow> vals | For3 v k vals \<Rightarrow> vals);
          getValues = (case values of
                         Str s \<Rightarrow> if startsWith_sigil s then GetDynamic values else GetStatic values
                       | _ \<Rightarrow> GetStatic values)
      in case f of
           For2 v vals \<Rightarrow> Iterator getValues v None
         | For3 v k vals \<Rightarrow> Iterator getValues v (Some k))"

definition apply_let :: "ctx \<Rightarrow> nat list \<Rightarrow> (string \<times> jsval) list \<Rightarrow> ctx" where
  "apply_let data scopes bindings = fold (\<lambda>(key, v) d. setValue d scopes (Key key) v) bindings data"

text \<open>
  Compilation threads the context object (\<^verbatim>\<open>setValue\<close> writes the scope store) and the
  next fresh symbol. A closure that the source passes around at compile time is a
  function here: \<open>parseEach\<close> is \<^verbatim>\<open>nodes.map(createElement.bind(...))\<close>, and
  \<open>parseCondition\<close> and \<open>parse_object\<close> receive the compilers of the parts of the node.
  \<open>parse_text\<close> is \<^verbatim>\<open>parseNode\<close> on a string, which it reads as
  \<^verbatim>\<open>{ $el: 'text', children: _node }\<close>; \<open>parse_object\<close> is \<^verbatim>\<open>parseNode\<close> on an object,
  with its three steps that compile parts of the node: \<open>conditional_part\<close> for an
  if/then/else node, \<open>let_part\<close> for the \<^verbatim>\<open>let\<close> bindings, and \<open>children_part\<close>.
\<close>

type_synonym cstate = "ctx \<times> nat"

type_synonym 'a parser = "nat list \<Rightarrow> cstate \<Rightarrow> 'a \<times> cstate"

fun parseEach :: "render_node parser list \<Rightarrow> render_node list parser" where
  "parseEach [] parentScope st = ([], st)"
| "parseEach (createElement # rest) parentScope st =
     (let (e, st1) = createElement parentScope st;
          (es, st2) = parseEach rest parentScope st1
      in (e # es, st2))"

definition parseCondition ::
  "render_schema parser \<Rightarrow> (bool \<times> render_schema parser) option
     \<Rightarrow> (render_schema \<times> render_schema option) parser" where
  "parseCondition parse_then parse_else scopes st =
     (let (children', st1) = parse_then scopes st
      in case parse_else of
           None \<Rightarrow> ((children', None), st1)
         | Some (else_truthy, p) \<Rightarrow>
             if else_truthy then
               (let (alternate, st2) = p scopes st1 in ((children', Some alternate), st2))
             else ((children', None), st1))"

definition children_truthy :: "children option \<Rightarrow> bool" where
  "children_truthy c = (case c of None \<Rightarrow> False | Some (ChildStr s) \<Rightarrow> s \<noteq> [] | Some _ \<Rightarrow> True)"

definition parse_text :: "string \<Rightarrow> render_node parser" where
  "parse_text s scopes0 st =
     (let scopes = scopes0 @ [snd st]
      in (RenderNode None (Some (Tag ''text'')) ANull
            (if s \<noteq> [] then Some (string_children s) else None) None scopes None,
          (fst st, Suc (snd st))))"

definition conditional_part ::
  "string option \<Rightarrow> string option \<Rightarrow> string option
     \<Rightarrow> (render_schema \<times> render_schema option) parser option
     \<Rightarrow> (jsval option \<times> render_children option \<times> render_schema option) parser" where
  "conditional_part el cmp cif cond_parser scopes st =
     (case cond_parser of
        Some p \<Rightarrow>
          if el = None \<and> cmp = None \<and> cif \<noteq> None then
            (let (ca, st') = p scopes st
             in ((map_option Str cif, Some (SchemaChildren (fst ca)), snd ca), st'))
          else ((None, None, None), st)
      | None \<Rightarrow> ((None, None, None), st))"

definition let_part :: "(string \<times> jsval) list option \<Rightarrow> nat list \<Rightarrow> cstate \<Rightarrow> cstate" where
  "let_part clet scopes st =
     (case clet of Some l \<Rightarrow> (apply_let (fst st) scopes l, snd st) | None \<Rightarrow> st)"

definition children_part ::
  "bool \<Rightarrow> render_children parser option \<Rightarrow> render_children option
     \<Rightarrow> render_children option parser" where
  "children_part has_children children_parser children0 scopes st =
     (case children_parser of
        Some p \<Rightarrow>
          if has_children then (let (c, st') = p scopes st in (Some c, st'))
          else (children0, st)
      | None \<Rightarrow> (children0, st))"

definition parse_object ::
  "string option \<Rightarrow> jsval \<Rightarrow> string option \<Rightarrow> jsval \<Rightarrow> string option
     \<Rightarrow> (render_schema \<times> render_schema option) parser option
     \<Rightarrow> bool \<Rightarrow> render_children parser option
     \<Rightarrow> for_stmt option \<Rightarrow> (string \<times> jsval) list option \<Rightarrow> render_node parser" where
  "parse_object el attrs cmp props cif cond_parser has_children children_parser cfor clet scopes0 st =
     (let scopes = scopes0 @ [snd st];
          st0 = (fst st, Suc (snd st));
          element = (case el of Some t \<Rightarrow> Some (Tag t)
                     | None \<Rightarrow> (case cmp of Some c \<Rightarrow> Some (Component c) | None \<Rightarrow> None));
          attrs' = (case el of Some t \<Rightarrow> if t \<noteq> ''text'' then parseAttrs attrs else ANull
                    | None \<Rightarrow> (case cmp of Some c \<Rightarrow> parseAttrs props | None \<Rightarrow> ANull));
          isCond = (cif \<noteq> None \<and> cond_parser \<noteq> None);
          (parsed, st1) = conditional_part el cmp cif cond_parser scopes st0;
          condition = (if \<not> isCond \<and> cif \<noteq> None then map_option Str cif else fst parsed);
          st2 = let_part clet scopes st1;
          (children', st3) = children_part has_children children_parser (fst (snd parsed)) scopes st2
      in (RenderNode condition element attrs' children' (snd (snd parsed)) scopes
            (map_option parse_for cfor), st3))"

primrec parseNode :: "node \<Rightarrow> render_node parser"
  and parseSchema :: "nodes \<Rightarrow> render_schema parser"
  and parseChildren :: "children \<Rightarrow> render_children parser" where
  "parseNode (StrNode s) = parse_text s"
| "parseNode (ObjNode el attrs cmp props cif cthen celse cchildren cfor clet) =
     parse_object el attrs cmp props cif
       (map_option (\<lambda>t. parseCondition t
           (map_option (\<lambda>e. (nodes_truthy e, parseSchema e)) celse))
         (map_option parseSchema cthen))
       (children_truthy cchildren) (map_option parseChildren cchildren) cfor clet"
| "parseSchema (Many ns) =
     (\<lambda>parentScope st. let (els, st') = parseEach (map parseNode ns) parentScope st
                        in (RenderMany els, st'))"
| "parseSchema (Single n) =
     (\<lambda>parentScope st. let (element, st') = parseNode n parentScope st
                        in (RenderOne element, st'))"
| "parseChildren (ChildStr s) = (\<lambda>scopes st. (string_children s, st))"
| "parseChildren (ChildNodes ns) =
     (\<lambda>scopes st. let (els, st') = parseEach (map parseNode ns) scopes st
                   in (SchemaChildren (RenderMany els), st'))"
| "parseChildren (ChildCond i t e) =
     (\<lambda>scopes st. let (ca, st') = parseCondition (parseSchema t)
                         (map_option (\<lambda>e. (nodes_truthy e, parseSchema e)) e) scopes st
                   in (CondChildren (Str i) (fst ca) (snd ca), st'))"


section \<open>Rendering: the closures of createElement\<close>

text \<open>
  What a render closure returns: \<^verbatim>\<open>null\<close>, a string, a text node
  (\<^verbatim>\<open>createTextVNode\<close>), a node \<^verbatim>\<open>h(element, attrs, children)\<close>, or an array of these.
\<close>

datatype vnode = VNull | VStr string | VText string | VNode elem jsval vnode | VList "vnode list"

fun text_of :: "vnode \<Rightarrow> string" where
  "text_of VNull = ''null''"
| "text_of (VStr s) = s"
| "text_of (VText s) = ''[object Object]''"
| "text_of (VNode e a c) = ''[object Object]''"
| "text_of (VList vs) = join_comma (map (\<lambda>v. if v = VNull then [] else text_of v) vs)"

text \<open>
  The getter of a token, \<^verbatim>\<open>() => checkScope(value.value, token)\<close>. The reference holds
  what the effect of getRef leaves, started from \<^verbatim>\<open>null\<close>, for the context object as
  it is when the closure is called; an exception of the effect is passed on.
\<close>

definition resolve :: "ctx \<Rightarrow> nat list \<Rightarrow> jsval list \<Rightarrow> string \<Rightarrow> error + jsval" where
  "resolve data scopes iterationScopes token =
     (case getRef data scopes token of
        Inl e \<Rightarrow> Inl e
      | Inr value \<Rightarrow> checkScope iterationScopes value token)"

definition provide :: "host \<Rightarrow> ctx \<Rightarrow> nat list \<Rightarrow> jsval \<Rightarrow> jsval list \<Rightarrow> error + jsval" where
  "provide h data scopes expr iterationScopes = ev h expr (resolve data scopes iterationScopes)"

fun call_attrs :: "host \<Rightarrow> ctx \<Rightarrow> nat list \<Rightarrow> jsval list \<Rightarrow> cattrs \<Rightarrow> error + jsval"
  and call_setters :: "host \<Rightarrow> ctx \<Rightarrow> nat list \<Rightarrow> jsval list \<Rightarrow> (string \<times> cattr) list
        \<Rightarrow> error + (string \<times> jsval) list"
  and call_attr :: "host \<Rightarrow> ctx \<Rightarrow> nat list \<Rightarrow> jsval list \<Rightarrow> cattr \<Rightarrow> error + jsval"
  and call_cond :: "host \<Rightarrow> ctx \<Rightarrow> nat list \<Rightarrow> jsval list \<Rightarrow> ccond \<Rightarrow> error + jsval"
  and call_branch :: "host \<Rightarrow> ctx \<Rightarrow> nat list \<Rightarrow> jsval list \<Rightarrow> cbranch \<Rightarrow> error + jsval" where
  "call_attrs h data scopes st ANull = Inr Null"
| "call_attrs h data scopes st (AMap setters) =
     (case call_setters h data scopes st setters of
        Inl e \<Rightarrow> Inl e
      | Inr attrs \<Rightarrow> Inr (Obj attrs))"
| "call_attrs h data scopes st (ACondRoot c) = call_cond h data scopes st c"
| "call_setters h data scopes st [] = Inr []"
| "call_setters h data scopes st ((attr, c) # rest) =
     (case call_attr h data scopes st c of
        Inl e \<Rightarrow> Inl e
      | Inr v \<Rightarrow>
          (case call_setters h data scopes st rest of
             Inl e \<Rightarrow> Inl e
           | Inr attrs \<Rightarrow> Inr ((attr, v) # attrs)))"
| "call_attr h data scopes st (AStatic v) = Inr v"
| "call_attr h data scopes st (ADynamic e) = provide h data scopes e st"
| "call_attr h data scopes st (ACond c) = call_cond h data scopes st c"
| "call_attr h data scopes st (ASub a) = call_attrs h data scopes st a"
| "call_cond h data scopes st (CondAttr i a b) =
     (case provide h data scopes i st of
        Inl e \<Rightarrow> Inl e
      | Inr c \<Rightarrow> if truthy c then call_branch h data scopes st a
                 else call_branch h data scopes st b)"
| "call_branch h data scopes st (BAttrs a) = call_attrs h data scopes st a"
| "call_branch h data scopes st (BValue v) = Inr v"


text \<open>
  A render closure reads and changes the iteration scope stack: it takes the stack
  and returns its result or the exception, and the stack it leaves.
\<close>

type_synonym 'a closure = "jsval list \<Rightarrow> (error + 'a) \<times> jsval list"

text \<open>
  The loop of createElement. \<open>frame\<close> is the object pushed for a key; \<open>iterate\<close> is
  the \<^verbatim>\<open>for (const key in values)\<close> loop: push, call the repeated node, pop. An
  exception of the repeated node leaves the loop before the pop.
\<close>

definition frame :: "string \<Rightarrow> string option \<Rightarrow> jsval \<Rightarrow> string \<Rightarrow> jsval" where
  "frame valueName keyName values key =
     Obj (assign [(valueName, getv values key)]
            (case keyName of Some k \<Rightarrow> [(k, Str key)] | None \<Rightarrow> []))"

fun iterate :: "vnode closure \<Rightarrow> string \<Rightarrow> string option \<Rightarrow> jsval \<Rightarrow> string list
      \<Rightarrow> vnode list \<Rightarrow> vnode list closure" where
  "iterate repeatedNode valueName keyName values [] fragment st = (Inr fragment, st)"
| "iterate repeatedNode valueName keyName values (key # keys) fragment st =
     (case repeatedNode (st @ [frame valueName keyName values key]) of
        (Inl e, st') \<Rightarrow> (Inl e, st')
      | (Inr r, st') \<Rightarrow>
          iterate repeatedNode valueName keyName values keys (fragment @ [r]) (butlast st'))"

definition get_values :: "host \<Rightarrow> ctx \<Rightarrow> nat list \<Rightarrow> getvalues \<Rightarrow> jsval list \<Rightarrow> error + jsval" where
  "get_values h data scopes g st =
     (case g of GetDynamic e \<Rightarrow> provide h data scopes e st | GetStatic v \<Rightarrow> Inr v)"

definition loop_values :: "host \<Rightarrow> jsval \<Rightarrow> error + jsval" where
  "loop_values h v =
     (if \<not> isNaN h v then
        (case new_Array (js_Number h v) of
           Inl e \<Rightarrow> Inl e
         | Inr n \<Rightarrow> Inr (Arr (map (\<lambda>i. Num (Fin (of_nat i))) [0..<n])))
      else Inr v)"

definition loop_nodes :: "host \<Rightarrow> ctx \<Rightarrow> nat list \<Rightarrow> iterator \<Rightarrow> vnode closure \<Rightarrow> vnode closure" where
  "loop_nodes h data scopes it repeatedNode st =
     (case it of Iterator getValues valueName keyName \<Rightarrow>
        (case get_values h data scopes getValues st of
           Inl e \<Rightarrow> (Inl e, st)
         | Inr v \<Rightarrow>
             (case loop_values h v of
                Inl e \<Rightarrow> (Inl e, st)
              | Inr values \<Rightarrow>
                  if typeof values \<noteq> ''object'' then (Inr VNull, st)
                  else (case iterate repeatedNode valueName keyName values (own_keys values) [] st of
                          (Inl e, st') \<Rightarrow> (Inl e, st')
                        | (Inr fragment, st') \<Rightarrow> (Inr (VList fragment), st')))))"

text \<open>The closure createNodes of a node without iterator.\<close>

fun elem_truthy :: "elem option \<Rightarrow> bool" where
  "elem_truthy None = False"
| "elem_truthy (Some (Tag t)) = (t \<noteq> [])"
| "elem_truthy (Some (Component c)) = True"

definition call_opt :: "vnode closure option \<Rightarrow> vnode closure" where
  "call_opt alternate st = (case alternate of Some a \<Rightarrow> a st | None \<Rightarrow> (Inr VNull, st))"

definition call_condition :: "host \<Rightarrow> ctx \<Rightarrow> nat list \<Rightarrow> jsval option \<Rightarrow> jsval list \<Rightarrow> error + bool" where
  "call_condition h data scopes condition st =
     (case condition of
        None \<Rightarrow> Inr True
      | Some c \<Rightarrow> (case provide h data scopes c st of Inl e \<Rightarrow> Inl e | Inr b \<Rightarrow> Inr (truthy b)))"

definition repeatedNode :: "host \<Rightarrow> ctx \<Rightarrow> jsval option \<Rightarrow> elem option \<Rightarrow> cattrs
      \<Rightarrow> vnode closure option \<Rightarrow> vnode closure option \<Rightarrow> nat list \<Rightarrow> vnode closure" where
  "repeatedNode h data condition element attrs children alternate scopes st =
     (if condition \<noteq> None \<and> element = None \<and> children \<noteq> None then
        (case call_condition h data scopes condition st of
           Inl e \<Rightarrow> (Inl e, st)
         | Inr b \<Rightarrow> if b then call_opt children st else call_opt alternate st)
      else
        (case (if elem_truthy element then call_condition h data scopes condition st
               else Inr False) of
           Inl e \<Rightarrow> (Inl e, st)
         | Inr False \<Rightarrow> call_opt alternate st
         | Inr True \<Rightarrow>
             (case element of
                None \<Rightarrow> call_opt alternate st
              | Some el \<Rightarrow>
                  if el = Tag ''text'' \<and> children \<noteq> None then
                    (case call_opt children st of
                       (Inl e, st') \<Rightarrow> (Inl e, st')
                     | (Inr v, st') \<Rightarrow> (Inr (VText (text_of v)), st'))
                  else
                    (case call_attrs h data scopes st attrs of
                       Inl e \<Rightarrow> (Inl e, st)
                     | Inr a \<Rightarrow>
                         (case children of
                            None \<Rightarrow> (Inr (VNode el a (VList [])), st)
                          | Some c \<Rightarrow>
                              (case c st of
                                 (Inl e, st') \<Rightarrow> (Inl e, st')
                               | (Inr v, st') \<Rightarrow> (Inr (VNode el a v), st')))))))"

fun call_each :: "vnode closure list \<Rightarrow> vnode list closure" where
  "call_each [] st = (Inr [], st)"
| "call_each (e # es) st =
     (case e st of
        (Inl x, st') \<Rightarrow> (Inl x, st')
      | (Inr v, st') \<Rightarrow>
          (case call_each es st' of
             (Inl x, st'') \<Rightarrow> (Inl x, st'')
           | (Inr vs, st'') \<Rightarrow> (Inr (v # vs), st'')))"

primrec createNodes :: "host \<Rightarrow> ctx \<Rightarrow> render_node \<Rightarrow> vnode closure"
  and call_children :: "host \<Rightarrow> ctx \<Rightarrow> render_children \<Rightarrow> nat list \<Rightarrow> vnode closure"
  and call_schema :: "host \<Rightarrow> ctx \<Rightarrow> render_schema \<Rightarrow> vnode closure" where
  "createNodes h data (RenderNode condition element attrs children alternate scopes iterator) =
     (case iterator of
        None \<Rightarrow>
          repeatedNode h data condition element attrs
            (map_option (\<lambda>c. call_children h data c scopes) children)
            (map_option (call_schema h data) alternate) scopes
      | Some it \<Rightarrow>
          loop_nodes h data scopes it
            (repeatedNode h data condition element attrs
               (map_option (\<lambda>c. call_children h data c scopes) children)
               (map_option (call_schema h data) alternate) scopes))"
| "call_children h data (TextChildren s) = (\<lambda>scopes st. (Inr (VStr s), st))"
| "call_children h data (DynamicChildren e) =
     (\<lambda>scopes st. case provide h data scopes e st of
                     Inl x \<Rightarrow> (Inl x, st)
                   | Inr v \<Rightarrow> (Inr (VStr (js_String h v)), st))"
| "call_children h data (SchemaChildren s) = (\<lambda>scopes. call_schema h data s)"
| "call_children h data (CondChildren i c a) =
     (\<lambda>scopes st. case provide h data scopes i st of
                     Inl x \<Rightarrow> (Inl x, st)
                   | Inr b \<Rightarrow> if truthy b then call_schema h data c st
                              else call_opt (map_option (call_schema h data) a) st)"
| "call_schema h data (RenderMany els) =
     (\<lambda>st. case call_each (map (createNodes h data) els) st of
              (Inl x, st') \<Rightarrow> (Inl x, st')
            | (Inr vs, st') \<Rightarrow> (Inr (VList vs), st'))"
| "call_schema h data (RenderOne el) = createNodes h data el"

text \<open>
  The component: the schema is compiled with the root path \<^verbatim>\<open>[Symbol()]\<close> and an empty
  scope store, and the render function calls the compiled closure.
\<close>

definition FormKitSchema :: "host \<Rightarrow> jsval \<Rightarrow> nodes \<Rightarrow> jsval list \<Rightarrow> (error + vnode) \<times> jsval list" where
  "FormKitSchema h props_data schema st =
     (let (element, (data, sym)) =
            parseSchema schema [0] (\<lparr>root = props_data, FK_SCP = Map.empty\<rparr>, 1)
      in call_schema h data element st)"

section \<open>The attribute closure and object identity\<close>

text \<open>
  Whether two calls return the same object is not a question of values, so the closure
  that parseAttrs returns for a map (the last lines of the function) is modelled a second
  time over a heap of objects: an address holds the property list of an object, and a
  new object takes the next free address. The closure closes over the object \<^verbatim>\<open>attrs\<close>,
  allocated when parseAttrs runs, with every key set (to its static value or to
  \<^verbatim>\<open>undefined\<close>), and over the setters, one for each entry that is not static. A call
  runs the setters, each an \<^verbatim>\<open>Object.assign(attrs, { [attr]: value })\<close> on that object,
  and returns the address of a new object with the properties of \<^verbatim>\<open>attrs\<close>
  (\<^verbatim>\<open>{ ...attrs }\<close>). The values themselves are those of the value-level closure.
\<close>

record heap =
  cells :: "nat \<Rightarrow> (string \<times> jsval) list option"
  next_cell :: nat

definition new_object :: "(string \<times> jsval) list \<Rightarrow> heap \<Rightarrow> nat \<times> heap" where
  "new_object props hp =
     (next_cell hp, hp\<lparr>cells := (cells hp)(next_cell hp \<mapsto> props), next_cell := Suc (next_cell hp)\<rparr>)"

definition object_assign :: "nat \<Rightarrow> (string \<times> jsval) list \<Rightarrow> heap \<Rightarrow> heap" where
  "object_assign a source hp =
     hp\<lparr>cells := (cells hp)(a := map_option (\<lambda>props. assign props source) (cells hp a))\<rparr>"

datatype attrs_closure = AttrsClosure (attrs_ref: nat) (setters: "(string \<times> cattr) list")

definition initial_attrs :: "(string \<times> cattr) list \<Rightarrow> (string \<times> jsval) list" where
  "initial_attrs entries =
     assign [] (map (\<lambda>(attr, c). (attr, case c of AStatic v \<Rightarrow> v | _ \<Rightarrow> Undefined)) entries)"

definition parseAttrs_closure :: "jsval \<Rightarrow> heap \<Rightarrow> (attrs_closure \<times> heap) option" where
  "parseAttrs_closure unparsedAttrs hp =
     (case parseAttrs unparsedAttrs of
        AMap entries \<Rightarrow>
          (let (a, hp') = new_object (initial_attrs entries) hp
           in Some (AttrsClosure a entries, hp'))
      | _ \<Rightarrow> None)"

fun has_setter :: "cattr \<Rightarrow> bool" where
  "has_setter (AStatic v) = False"
| "has_setter c = True"

fun run_setters :: "host \<Rightarrow> ctx \<Rightarrow> nat list \<Rightarrow> jsval list \<Rightarrow> nat \<Rightarrow> (string \<times> cattr) list
      \<Rightarrow> heap \<Rightarrow> error option \<times> heap" where
  "run_setters h data scopes st a [] hp = (None, hp)"
| "run_setters h data scopes st a ((attr, c) # rest) hp =
     (if \<not> has_setter c then run_setters h data scopes st a rest hp
      else
        (case call_attr h data scopes st c of
           Inl e \<Rightarrow> (Some e, hp)
         | Inr v \<Rightarrow> run_setters h data scopes st a rest (object_assign a [(attr, v)] hp)))"

definition call_closure :: "host \<Rightarrow> ctx \<Rightarrow> nat list \<Rightarrow> jsval list \<Rightarrow> attrs_closure \<Rightarrow> heap
      \<Rightarrow> (error + nat) \<times> heap" where
  "call_closure h data scopes st cl hp =
     (case run_setters h data scopes st (attrs_ref cl) (setters cl) hp of
        (Some e, hp') \<Rightarrow> (Inl e, hp')
      | (None, hp') \<Rightarrow>
          (let (r, hp'') = new_object
                 (case cells hp' (attrs_ref cl) of Some props \<Rightarrow> props | None \<Rightarrow> []) hp'
           in (Inr r, hp'')))"

section \<open>Auxiliary notions for the properties\<close>

text \<open>
  A closure restores the stack when every call that returns leaves the iteration scope
  stack as it found it.
\<close>

definition restores :: "'a closure \<Rightarrow> bool" where
  "restores c = (\<forall>st r st'. c st = (Inr r, st') \<longrightarrow> st' = st)"

text \<open>
  A host for the examples. An expression that is the sigil followed by a token evaluates
  to the value of that token; the string of a natural number is its decimal numeral;
  the strings \<^verbatim>\<open>3\<close>, \<^verbatim>\<open>5\<close> and \<^verbatim>\<open>-1\<close> convert to their numbers. The examples use it on
  these inputs and on strings that are not numbers.
\<close>

definition sample_host :: host where
  "sample_host =
     \<lparr>ev = (\<lambda>e r. case e of Str (c # t) \<Rightarrow> if c = CHR ''$'' then r t else Inl TypeError
                   | _ \<Rightarrow> Inl TypeError),
      num_str = (\<lambda>n. case n of Fin q \<Rightarrow> if q = of_int \<lfloor>q\<rfloor> \<and> 0 \<le> q then nat_str (nat \<lfloor>q\<rfloor>) else ''-1''
                   | _ \<Rightarrow> ''NaN''),
      str_num = (\<lambda>s. if s = ''3'' then Fin 3 else if s = ''5'' then Fin 5
                      else if s = ''-1'' then Fin (- 1) else NaN)\<rparr>"


text \<open>The schema of the end-to-end loop example of the spec.\<close>

definition list_schema :: nodes where
  "list_schema = Single (ObjNode (Some ''ul'') Undefined None Undefined None None None
     (Some (ChildNodes
        [ObjNode (Some ''li'') Undefined None Undefined None None None
           (Some (ChildStr ''$v'')) (Some (For3 ''v'' ''k'' (Str ''$items''))) None]))
     None None)"














text \<open>
  The object \<^verbatim>\<open>attrs\<close> of a closure has the keys of the entries, in their order, and
  holds the value of every static entry.
\<close>

definition holds_statics :: "(string \<times> cattr) list \<Rightarrow> (string \<times> jsval) list \<Rightarrow> bool" where
  "holds_statics entries props =
     list_all2 (\<lambda>e p. fst p = fst e \<and> (has_setter (snd e) \<or> AStatic (snd p) = snd e)) entries props"

text \<open>An attribute map, its closure and the heaps after compiling and after one call.\<close>

definition example_attrs :: jsval where
  "example_attrs = Obj [(''id'', Str ''a''), (''data-x'', Str ''$count'')]"

definition example_data :: ctx where
  "example_data = \<lparr>root = Obj [(''count'', Num (Fin 2))], FK_SCP = Map.empty\<rparr>"

definition example_closure :: attrs_closure where
  "example_closure = AttrsClosure 0 [(''id'', AStatic (Str ''a'')), (''data-x'', ADynamic (Str ''$count''))]"

definition heap_after_compile :: heap where
  "heap_after_compile = \<lparr>cells = [0 \<mapsto> [(''id'', Str ''a''), (''data-x'', Undefined)]], next_cell = 1\<rparr>"

definition heap_after_call :: heap where
  "heap_after_call = \<lparr>cells = [0 \<mapsto> [(''id'', Str ''a''), (''data-x'', Num (Fin 2))],
                               1 \<mapsto> [(''id'', Str ''a''), (''data-x'', Num (Fin 2))]], next_cell = 2\<rparr>"

section \<open>Properties of findValue\<close>

text \<open>
  The accumulator of the \<^verbatim>\<open>reduce\<close> in \<^verbatim>\<open>findValue\<close>: the object in which the next
  segment is read. After all segments but the last it is the final parent object.
\<close>

fun descend :: "jsval \<Rightarrow> string list \<Rightarrow> error + jsval" where
  "descend obj [] = Inr obj"
| "descend obj (segment # rest) =
     (case read_prop obj segment of
        Inl e \<Rightarrow> Inl e
      | Inr v \<Rightarrow> descend (if typeof v = ''object'' then v else Obj []) rest)"

lemma reduce_path_snoc:
  "reduce_path obj (init @ [k]) =
     (case descend obj init of
        Inl e \<Rightarrow> Inl e
      | Inr p \<Rightarrow> (case read_prop p k of
                   Inl e \<Rightarrow> Inl e
                 | Inr v \<Rightarrow> Inr (if has p k then v else Undefined)))"
proof (induction init arbitrary: obj)
  case Nil
  show ?case by simp
next
  case (Cons a init)
  obtain b bs where snoc: "init @ [k] = b # bs" by (cases "init @ [k]") auto
  show ?case using Cons.IH
    by (cases "read_prop obj a") (simp_all add: snoc [symmetric] del: append_Cons, simp_all add: snoc)
qed

lemma findValue_append_undefined:
  "\<forall>t \<in> set pre. reduce_path t path = Inr Undefined \<Longrightarrow>
   findValue (pre @ sets) path = findValue sets path"
  by (induction pre) auto

lemma has_read_prop: "has p k \<Longrightarrow> read_prop p k = Inr (getv p k)"
  by (cases p) (auto simp: read_prop_def)

text \<open>
  C1 (as amended). Let the sets before \<open>s\<close> yield nothing, and let the final parent
  object \<open>p\<close> reached in \<open>s\<close> own the last key \<open>k\<close>. If the value under \<open>k\<close> is not
  \<^verbatim>\<open>undefined\<close>, findValue returns it from \<open>s\<close>. If the value is \<^verbatim>\<open>undefined\<close>, the
  key counts as not found: the result is that of the search in the later sets.
\<close>

theorem findValue_present_key:
  assumes "\<forall>t \<in> set pre. reduce_path t (init @ [k]) = Inr Undefined"
    and "descend s init = Inr p" and "has p k"
  shows "findValue (pre @ s # post) (init @ [k]) =
           (if getv p k \<noteq> Undefined then Inr (getv p k) else findValue post (init @ [k]))"
proof -
  have "reduce_path s (init @ [k]) = Inr (getv p k)"
    using assms(2,3) by (simp add: reduce_path_snoc has_read_prop)
  then show ?thesis
    using findValue_append_undefined [OF assms(1)] by simp
qed

theorem findValue_present_key_witness:
  "findValue [Obj [(''y'', Num (Fin 1))],
              Obj [(''u'', Obj [(''x'', Undefined)])],
              Obj [(''u'', Obj [(''x'', Str ''later'')])]] [''u'', ''x'']
   = Inr (Str ''later'')"
proof -
  have h1: "\<forall>t \<in> set [Obj [(''y'', Num (Fin 1))]]. reduce_path t ([''u''] @ [''x'']) = Inr Undefined"
    by (simp add: read_prop_def)
  have h2: "descend (Obj [(''u'', Obj [(''x'', Undefined)])]) [''u''] = Inr (Obj [(''x'', Undefined)])"
    by (simp add: read_prop_def)
  have h3: "has (Obj [(''x'', Undefined)]) ''x''" by simp
  show ?thesis
    using findValue_present_key [OF h1 h2 h3, of "[Obj [(''u'', Obj [(''x'', Str ''later'')])]]"]
    by (simp add: read_prop_def)
qed

text \<open>
  C1 as stated fails: the first set owns the key \<^verbatim>\<open>x\<close> with the value \<^verbatim>\<open>undefined\<close>,
  and findValue returns 5 from the second set.
\<close>

theorem findValue_undefined_counterexample:
  "has (Obj [(''x'', Undefined)]) ''x'' \<and>
   getv (Obj [(''x'', Undefined)]) ''x'' = Undefined \<and>
   findValue [Obj [(''x'', Undefined)], Obj [(''x'', Num (Fin 5))]] [''x''] = Inr (Num (Fin 5))"
  by (simp add: read_prop_def)

section \<open>Properties of getRef\<close>



section \<open>The iteration scope stack is restored\<close>

lemma restoresD: "restores c \<Longrightarrow> c st = (Inr r, st') \<Longrightarrow> st' = st"
  by (auto simp: restores_def)

lemma iterate_returns:
  assumes "restores body"
    and "iterate body vn kn vals keys frag st = (Inr out, st')"
  shows "st' = st \<and> (\<exists>rs. out = frag @ rs \<and>
           list_all2 (\<lambda>key r. body (st @ [frame vn kn vals key])
                               = (Inr r, st @ [frame vn kn vals key])) keys rs)"
  using assms(2)
proof (induction keys arbitrary: frag st)
  case Nil
  then show ?case by simp
next
  case (Cons key keys)
  obtain res st1 where b: "body (st @ [frame vn kn vals key]) = (res, st1)"
    by (cases "body (st @ [frame vn kn vals key])")
  show ?case
  proof (cases res)
    case (Inl e)
    then show ?thesis using Cons.prems b by simp
  next
    case (Inr r)
    have st1: "st1 = st @ [frame vn kn vals key]"
      using restoresD [OF assms(1)] b Inr by blast
    have "iterate body vn kn vals keys (frag @ [r]) st = (Inr out, st')"
      using Cons.prems b Inr st1 by simp
    from Cons.IH [OF this] obtain rs where
      "st' = st" "out = (frag @ [r]) @ rs"
      "list_all2 (\<lambda>key r. body (st @ [frame vn kn vals key])
                               = (Inr r, st @ [frame vn kn vals key])) keys rs"
      by blast
    then show ?thesis using b Inr st1
      by (intro conjI exI [of _ "r # rs"]) simp_all
  qed
qed

lemma restores_call_opt: "(\<And>c. a = Some c \<Longrightarrow> restores c) \<Longrightarrow> restores (call_opt a)"
  by (cases a) (auto simp: restores_def call_opt_def)

lemma restores_text:
  "restores c \<Longrightarrow>
   restores (\<lambda>st. case c st of (Inl e, st') \<Rightarrow> (Inl e, st')
               | (Inr v, st') \<Rightarrow> (Inr (f v), st'))"
  by (auto simp: restores_def split: prod.splits sum.splits)

lemma restores_const: "restores (\<lambda>st. (x, st))"
  by (simp add: restores_def)

lemma restores_sum:
  "(\<And>v. r = Inr v \<Longrightarrow> restores (c v)) \<Longrightarrow>
   restores (\<lambda>st. case r of Inl e \<Rightarrow> (Inl e, st) | Inr v \<Rightarrow> c v st)"
  by (cases r) (auto simp: restores_def)

lemma restores_ext: "restores c \<Longrightarrow> (\<And>st. c st = d st) \<Longrightarrow> restores d"
  by (simp add: restores_def)

lemma repeatedNode_conditional:
  "condition \<noteq> None \<and> element = None \<and> children \<noteq> None \<Longrightarrow>
   repeatedNode h data condition element attrs children alternate scopes st =
     (case call_condition h data scopes condition st of
        Inl e \<Rightarrow> (Inl e, st)
      | Inr b \<Rightarrow> if b then call_opt children st else call_opt alternate st)"
  unfolding repeatedNode_def by (rule if_P)

lemma repeatedNode_element:
  "\<not> (condition \<noteq> None \<and> element = None \<and> children \<noteq> None) \<Longrightarrow>
   repeatedNode h data condition element attrs children alternate scopes st =
     (case (if elem_truthy element then call_condition h data scopes condition st
            else Inr False) of
        Inl e \<Rightarrow> (Inl e, st)
      | Inr False \<Rightarrow> call_opt alternate st
      | Inr True \<Rightarrow>
          (case element of
             None \<Rightarrow> call_opt alternate st
           | Some el \<Rightarrow>
               if el = Tag ''text'' \<and> children \<noteq> None then
                 (case call_opt children st of
                    (Inl e, st') \<Rightarrow> (Inl e, st')
                  | (Inr v, st') \<Rightarrow> (Inr (VText (text_of v)), st'))
               else
                 (case call_attrs h data scopes st attrs of
                    Inl e \<Rightarrow> (Inl e, st)
                  | Inr a \<Rightarrow>
                      (case children of
                         None \<Rightarrow> (Inr (VNode el a (VList [])), st)
                       | Some c \<Rightarrow>
                           (case c st of
                              (Inl e, st') \<Rightarrow> (Inl e, st')
                            | (Inr v, st') \<Rightarrow> (Inr (VNode el a v), st'))))))"
  unfolding repeatedNode_def by (rule if_not_P)

lemma post_restores:
  assumes "(case c st of (Inl e, st') \<Rightarrow> (Inl e, st') | (Inr v, st') \<Rightarrow> (Inr (f v), st')) = (Inr r, st1)"
    and "restores c"
  shows "st1 = st"
proof -
  obtain x s' where c: "c st = (x, s')" by (cases "c st")
  with assms(1) obtain v where "x = Inr v" "s' = st1" by (cases x) auto
  with c restoresD [OF assms(2)] show ?thesis by blast
qed

lemma restores_repeatedNode:
  assumes "\<And>c. children = Some c \<Longrightarrow> restores c" "\<And>c. alternate = Some c \<Longrightarrow> restores c"
  shows "restores (repeatedNode h data condition element attrs children alternate scopes)"
  unfolding restores_def
proof (intro allI impI)
  fix st r st'
  assume run: "repeatedNode h data condition element attrs children alternate scopes st = (Inr r, st')"
  have a: "restores (call_opt alternate)" and c: "restores (call_opt children)"
    using assms by (auto intro: restores_call_opt)
  show "st' = st"
  proof (cases "condition \<noteq> None \<and> element = None \<and> children \<noteq> None")
    case True
    note eq = repeatedNode_conditional [OF True, of h data attrs alternate scopes st]
    show ?thesis
    proof (cases "call_condition h data scopes condition st")
      case (Inl e)
      then show ?thesis using run eq by simp
    next
      case (Inr b)
      then have "call_opt (if b then children else alternate) st = (Inr r, st')"
        using run eq by (cases b) simp_all
      then show ?thesis using restoresD [OF a] restoresD [OF c] by (cases b) auto
    qed
  next
    case False
    note eq = repeatedNode_element [OF False, of h data attrs alternate scopes st]
    show ?thesis
    proof (cases "if elem_truthy element then call_condition h data scopes condition st else Inr False")
      case (Inl e)
      then show ?thesis using run unfolding eq by simp
    next
      case (Inr b)
      note cond = this
      show ?thesis
      proof (cases b)
        case False
        then have "call_opt alternate st = (Inr r, st')"
          using run unfolding eq cond by simp
        then show ?thesis by (rule restoresD [OF a])
      next
        case True
        note b = this
        show ?thesis
        proof (cases element)
          case None
          then have "call_opt alternate st = (Inr r, st')"
            using run b unfolding eq cond by simp
          then show ?thesis by (rule restoresD [OF a])
        next
          case (Some el)
          note el = this
          show ?thesis
          proof (cases "el = Tag ''text'' \<and> children \<noteq> None")
            case True
            then have "(case call_opt children st of (Inl e, st') \<Rightarrow> (Inl e, st')
                | (Inr v, st') \<Rightarrow> (Inr (VText (text_of v)), st')) = (Inr r, st')"
              using run b el unfolding eq cond by simp
            then show ?thesis by (rule post_restores [OF _ c])
          next
            case False
            note notext = this
            show ?thesis
            proof (cases "call_attrs h data scopes st attrs")
              case (Inl e)
              then show ?thesis using run b el notext unfolding eq cond by (auto split: if_splits)
            next
              case (Inr av)
              note attrs = this
              show ?thesis
              proof (cases children)
                case None
                then show ?thesis using run b el notext attrs unfolding eq cond by (auto split: if_splits)
              next
                case (Some ch)
                then have "(case ch st of (Inl e, st') \<Rightarrow> (Inl e, st')
                    | (Inr v, st') \<Rightarrow> (Inr (VNode el av v), st')) = (Inr r, st')"
                  using run b el notext attrs unfolding eq cond by (auto split: if_splits)
                then show ?thesis by (rule post_restores [OF _ assms(1) [OF Some]])
              qed
            qed
          qed
        qed
      qed
    qed
  qed
qed

lemma restores_loop_nodes:
  assumes "restores body"
  shows "restores (loop_nodes h data scopes it body)"
  unfolding restores_def
proof (intro allI impI)
  fix st r st'
  assume "loop_nodes h data scopes it body st = (Inr r, st')"
  then show "st' = st"
    using iterate_returns [OF assms]
    by (auto simp: loop_nodes_def split: iterator.splits sum.splits if_splits prod.splits)
qed

lemma restores_call_each:
  "(\<And>c. c \<in> set cs \<Longrightarrow> restores c) \<Longrightarrow> restores (call_each cs)"
proof (induction cs)
  case Nil
  show ?case by (simp add: restores_def)
next
  case (Cons c cs)
  have c: "restores c" and cs: "restores (call_each cs)" using Cons by auto
  show ?case
    unfolding restores_def
  proof (intro allI impI)
    fix st r st'
    assume run: "call_each (c # cs) st = (Inr r, st')"
    obtain r1 st1 where c1: "c st = (r1, st1)" by (cases "c st")
    obtain r2 st2 where c2: "call_each cs st1 = (r2, st2)" by (cases "call_each cs st1")
    from run c1 obtain v where v: "r1 = Inr v" by (cases r1) auto
    from run c1 c2 v obtain vs where vs: "r2 = Inr vs" by (cases r2) auto
    have "st1 = st" using restoresD [OF c] c1 v by blast
    moreover have "st2 = st1" using restoresD [OF cs] c2 vs by blast
    ultimately show "st' = st" using run c1 c2 v vs by simp
  qed
qed

lemma restores_all:
  "restores (createNodes h data n)
   \<and> (\<forall>scopes. restores (call_children h data c scopes))
   \<and> restores (call_schema h data s)"
proof (rule render_node_render_children_render_schema.induct
    [where ?P1.0 = "\<lambda>n. restores (createNodes h data n)"
       and ?P2.0 = "\<lambda>c. \<forall>scopes. restores (call_children h data c scopes)"
       and ?P3.0 = "\<lambda>s. restores (call_schema h data s)"], goal_cases)
  case (1 condition element attrs children alternate sc iterator)
  have ch: "\<And>c. map_option (\<lambda>c. call_children h data c sc) children = Some c \<Longrightarrow> restores c"
    using 1(1) by (cases children) auto
  have al: "\<And>c. map_option (call_schema h data) alternate = Some c \<Longrightarrow> restores c"
    using 1(2) by (cases alternate) auto
  have "restores (repeatedNode h data condition element attrs
            (map_option (\<lambda>c. call_children h data c sc) children)
            (map_option (call_schema h data) alternate) sc)"
    by (rule restores_repeatedNode [OF ch al])
  then show ?case
    by (cases iterator) (auto intro: restores_loop_nodes)
next
  case (2 s)
  show ?case by (simp add: restores_def)
next
  case (3 e)
  show ?case by (auto simp: restores_def split: sum.splits)
next
  case (4 s)
  then show ?case by simp
next
  case (5 i c a)
  have "restores (call_opt (map_option (call_schema h data) a))"
    using 5(2) by (cases a) (auto intro: restores_call_opt)
  then show ?case using 5(1)
    by (auto simp: restores_def split: sum.splits if_splits)
next
  case (6 els)
  have "restores (call_each (map (createNodes h data) els))"
    using 6 by (intro restores_call_each) auto
  then show ?case
    by (auto simp: restores_def split: prod.splits sum.splits)
next
  case (7 el)
  then show ?case by simp
qed



section \<open>Array indices as keys\<close>

lemma nat_str_digits: "set (nat_str n) \<subseteq> set ''0123456789''"
proof (induction n rule: nat_str.induct)
  case (1 n)
  have d: "\<And>d. d < 10 \<Longrightarrow> ''0123456789'' ! d \<in> set ''0123456789''"
    by (rule nth_mem) simp
  show ?case
  proof (cases "n < 10")
    case True
    then show ?thesis using d [of n] by (subst nat_str.simps) simp
  next
    case False
    then show ?thesis using 1 d [of "n mod 10"]
      by (subst nat_str.simps) simp
  qed
qed

lemma nat_str_not_Nil: "nat_str n \<noteq> []"
  by (subst nat_str.simps) simp

lemma nat_str_length_one: "length (nat_str n) = Suc 0 \<longleftrightarrow> n < 10"
proof (cases "n < 10")
  case True
  then show ?thesis by (subst nat_str.simps) simp
next
  case False
  have "length (nat_str (n div 10)) \<noteq> 0" using nat_str_not_Nil by simp
  then show ?thesis using False by (subst nat_str.simps) simp
qed

lemma digit_inj:
  "d < 10 \<Longrightarrow> d' < 10 \<Longrightarrow> ''0123456789'' ! d = ''0123456789'' ! d' \<Longrightarrow> d = d'"
proof -
  assume a: "d < 10" "d' < 10" "''0123456789'' ! d = ''0123456789'' ! d'"
  have "distinct ''0123456789''" by simp
  then show ?thesis using a by (simp add: nth_eq_iff_index_eq)
qed

lemma nat_str_inj: "nat_str n = nat_str m \<Longrightarrow> n = m"
proof (induction n arbitrary: m rule: nat_str.induct)
  case (1 n)
  show ?case
  proof (cases "n < 10")
    case True
    then have "length (nat_str m) = Suc 0" using "1.prems" nat_str_length_one [of n] by simp
    then have m: "m < 10" by (simp add: nat_str_length_one)
    have "[''0123456789'' ! n] = [''0123456789'' ! m]"
      using "1.prems" True m by (simp add: nat_str.simps [of n] nat_str.simps [of m])
    then show ?thesis using digit_inj [OF True m] by simp
  next
    case False
    then have "length (nat_str m) \<noteq> Suc 0" using "1.prems" nat_str_length_one [of n] by simp
    then have m: "\<not> m < 10" by (simp add: nat_str_length_one)
    have "nat_str (n div 10) @ [''0123456789'' ! (n mod 10)]
          = nat_str (m div 10) @ [''0123456789'' ! (m mod 10)]"
      using "1.prems" False m by (simp add: nat_str.simps [of n] nat_str.simps [of m])
    then have a: "nat_str (n div 10) = nat_str (m div 10)"
      and b: "''0123456789'' ! (n mod 10) = ''0123456789'' ! (m mod 10)"
      by simp_all
    have "n div 10 = m div 10" using "1.IH" [OF False a] .
    moreover have "n mod 10 = m mod 10" using digit_inj [OF _ _ b] by simp
    ultimately show ?thesis by (metis div_mult_mod_eq)
  qed
qed

lemma index_of_nat_str: "i < n \<Longrightarrow> index_of n (nat_str i) = Some i"
  unfolding index_of_def find_Some_iff
  by (rule exI [of _ i]) (auto dest: nat_str_inj)

lemma nat_str_not_length: "nat_str i \<noteq> ''length''"
proof
  assume "nat_str i = ''length''"
  then have "CHR ''l'' \<in> set (nat_str i)" by simp
  then show False using nat_str_digits [of i] by auto
qed

lemma getv_Arr_nat_str: "i < length xs \<Longrightarrow> getv (Arr xs) (nat_str i) = xs ! i"
  by (simp add: nat_str_not_length index_of_nat_str)

lemma createNodes_loop:
  "createNodes h data (RenderNode c e a ch alt scopes (Some it)) =
     loop_nodes h data scopes it (createNodes h data (RenderNode c e a ch alt scopes None))"
  by simp

lemma loop_nodes_returns:
  assumes "restores body"
    and "get_values h data scopes g st = Inr v" and "loop_values h v = Inr vals"
    and "typeof vals = ''object''"
    and "loop_nodes h data scopes (Iterator g vn kn) body st = (Inr out, st')"
  shows "st' = st \<and> (\<exists>rs. out = VList rs \<and>
           list_all2 (\<lambda>key r. body (st @ [frame vn kn vals key])
                               = (Inr r, st @ [frame vn kn vals key])) (own_keys vals) rs)"
proof -
  obtain res st1 where it: "iterate body vn kn vals (own_keys vals) [] st = (res, st1)"
    by (cases "iterate body vn kn vals (own_keys vals) [] st")
  then obtain rs where res: "res = Inr rs" and out: "out = VList rs" and st1: "st1 = st'"
    using assms(2-5) by (cases res) (auto simp: loop_nodes_def)
  from iterate_returns [OF assms(1) it [unfolded res]] show ?thesis
    using out st1 by auto
qed

section \<open>What a loop iterates\<close>




text \<open>A value that converts to a valid array length \<open>n\<close> is iterated as \<open>0..n-1\<close>.\<close>

lemma own_keys_range:
  "own_keys (Arr (map f [0..<n])) = map nat_str [0..<n]"
  by simp

lemma frame_range:
  "i < n \<Longrightarrow>
   frame vn kn (Arr (map (\<lambda>i. Num (Fin (of_nat i))) [0..<n])) (nat_str i) =
     Obj (assign [(vn, Num (Fin (of_nat i)))]
            (case kn of Some k \<Rightarrow> [(k, Str (nat_str i))] | None \<Rightarrow> []))"
  by (simp add: frame_def getv_Arr_nat_str del: getv.simps)

lemma loop_numeric:
  assumes "restores body"
    and "get_values h data scopes g st = Inr v"
    and "\<not> isNaN h v" and "new_Array (js_Number h v) = Inr n"
    and "loop_nodes h data scopes (Iterator g vn kn) body st = (Inr out, st')"
  shows "st' = st \<and> (\<exists>rs. out = VList rs \<and> length rs = n \<and>
           (\<forall>i<n. body (st @ [Obj (assign [(vn, Num (Fin (of_nat i)))]
                        (case kn of Some k \<Rightarrow> [(k, Str (nat_str i))] | None \<Rightarrow> []))])
                 = (Inr (rs ! i), st @ [Obj (assign [(vn, Num (Fin (of_nat i)))]
                        (case kn of Some k \<Rightarrow> [(k, Str (nat_str i))] | None \<Rightarrow> []))])))"
proof -
  let ?vals = "Arr (map (\<lambda>i. Num (Fin (of_nat i))) [0..<n])"
  have vals: "loop_values h v = Inr ?vals"
    using assms(3,4) by (simp add: loop_values_def)
  from loop_nodes_returns [OF assms(1,2) vals _ assms(5)]
  obtain rs where st: "st' = st" and out: "out = VList rs"
    and all: "list_all2 (\<lambda>key r. body (st @ [frame vn kn ?vals key])
                               = (Inr r, st @ [frame vn kn ?vals key])) (own_keys ?vals) rs"
    by auto
  have len: "length rs = n"
    using list_all2_lengthD [OF all] by simp
  have "\<forall>i<n. body (st @ [frame vn kn ?vals (nat_str i)])
                 = (Inr (rs ! i), st @ [frame vn kn ?vals (nat_str i)])"
  proof (intro allI impI)
    fix i assume i: "i < n"
    have "own_keys ?vals ! i = nat_str i" using i by simp
    then show "body (st @ [frame vn kn ?vals (nat_str i)])
                 = (Inr (rs ! i), st @ [frame vn kn ?vals (nat_str i)])"
      using list_all2_nthD [OF all, of i] i by simp
  qed
  then show ?thesis using st out len by (simp add: frame_range)
qed


lemma new_Array_Fin: "new_Array x = Inr n \<Longrightarrow> x = Fin (of_nat n)"
  by (cases x) (auto simp: new_Array_def split: if_splits)

lemma new_Array_not_NaN: "new_Array (js_Number h v) = Inr n \<Longrightarrow> \<not> isNaN h v"
  by (auto simp: isNaN_def dest: new_Array_Fin)

text \<open>
  C9 (as amended). When the evaluated values \<open>v\<close> are not a number, \<^verbatim>\<open>isNaN(v)\<close> is
  false and \<^verbatim>\<open>Number(v)\<close> is a valid array length \<open>n\<close>, a call of the loop closure that
  returns has run the repeated node \<open>n\<close> times, the \<open>i\<close>-th time on the stack extended
  by the frame that binds the value name to the number \<open>i\<close> (and the key name to the
  string of \<open>i\<close>): the own keys of \<open>v\<close> are not iterated and the result is not empty.
\<close>

theorem loop_coerced_length:
  assumes "get_values h data scopes getValues st = Inr v"
    and "typeof v \<noteq> ''number''" and "\<not> isNaN h v"
    and "new_Array (js_Number h v) = Inr n"
    and "createNodes h data
           (RenderNode condition element attrs children alternate scopes
              (Some (Iterator getValues valueName keyName))) st = (Inr out, st')"
  shows "js_Number h v = Fin (of_nat n) \<and> st' = st \<and>
    (\<exists>rs. out = VList rs \<and> length rs = n \<and>
       (\<forall>i<n. createNodes h data
                 (RenderNode condition element attrs children alternate scopes None)
                 (st @ [Obj (assign [(valueName, Num (Fin (of_nat i)))]
                          (case keyName of Some k \<Rightarrow> [(k, Str (nat_str i))] | None \<Rightarrow> []))])
               = (Inr (rs ! i),
                  st @ [Obj (assign [(valueName, Num (Fin (of_nat i)))]
                          (case keyName of Some k \<Rightarrow> [(k, Str (nat_str i))] | None \<Rightarrow> []))])))"
proof -
  have body: "restores (createNodes h data
      (RenderNode condition element attrs children alternate scopes None))"
    using restores_all [of h data] by blast
  have run: "loop_nodes h data scopes (Iterator getValues valueName keyName)
      (createNodes h data (RenderNode condition element attrs children alternate scopes None)) st
      = (Inr out, st')"
    using assms(5) by simp
  show ?thesis
    using loop_numeric [OF body assms(1,3,4) run] new_Array_Fin [OF assms(4)] by simp
qed

theorem loop_coerced_length_witness:
  "js_Number sample_host (Str ''3'') = Fin (of_nat 3) \<and>
   createNodes sample_host \<lparr>root = Obj [], FK_SCP = Map.empty\<rparr>
     (RenderNode None (Some (Tag ''li'')) ANull (Some (DynamicChildren (Str ''$v''))) None [0, 1]
        (Some (Iterator (GetStatic (Str ''3'')) ''v'' (Some ''k'')))) []
   = (Inr (VList [VNode (Tag ''li'') Null (VStr ''0''), VNode (Tag ''li'') Null (VStr ''1''),
                  VNode (Tag ''li'') Null (VStr ''2'')]), [])"
proof -
  have h1: "get_values sample_host \<lparr>root = Obj [], FK_SCP = Map.empty\<rparr> [0, 1]
      (GetStatic (Str ''3'')) [] = Inr (Str ''3'')"
    by (simp add: get_values_def)
  have h2: "typeof (Str ''3'') \<noteq> ''number''" by simp
  have h3: "\<not> isNaN sample_host (Str ''3'')" by code_simp
  have h4: "new_Array (js_Number sample_host (Str ''3'')) = Inr 3" by code_simp
  have run: "createNodes sample_host \<lparr>root = Obj [], FK_SCP = Map.empty\<rparr>
     (RenderNode None (Some (Tag ''li'')) ANull (Some (DynamicChildren (Str ''$v''))) None [0, 1]
        (Some (Iterator (GetStatic (Str ''3'')) ''v'' (Some ''k'')))) []
   = (Inr (VList [VNode (Tag ''li'') Null (VStr ''0''), VNode (Tag ''li'') Null (VStr ''1''),
                  VNode (Tag ''li'') Null (VStr ''2'')]), [])"
    by code_simp
  show ?thesis
    using loop_coerced_length [OF h1 h2 h3 h4 run] run by simp
qed

text \<open>
  C9 as stated fails: the string \<^verbatim>\<open>-1\<close> is not a number and \<^verbatim>\<open>isNaN\<close> is false of it,
  but \<^verbatim>\<open>Array(-1)\<close> throws a RangeError and nothing is iterated.
\<close>

theorem loop_coerced_length_counterexample:
  "typeof (Str ''-1'') \<noteq> ''number'' \<and> \<not> isNaN sample_host (Str ''-1'') \<and>
   js_Number sample_host (Str ''-1'') = Fin (- 1) \<and>
   createNodes sample_host \<lparr>root = Obj [], FK_SCP = Map.empty\<rparr>
     (RenderNode None (Some (Tag ''li'')) ANull (Some (DynamicChildren (Str ''$v''))) None [0, 1]
        (Some (Iterator (GetStatic (Str ''-1'')) ''v'' (Some ''k'')))) []
   = (Inl RangeError, [])"
  by code_simp


lemma list_schema_compiled:
  "parseSchema list_schema [0] (\<lparr>root = d, FK_SCP = Map.empty\<rparr>, 1) =
     (RenderOne (RenderNode None (Some (Tag ''ul'')) ANull
        (Some (SchemaChildren (RenderMany
           [RenderNode None (Some (Tag ''li'')) ANull (Some (DynamicChildren (Str ''$v''))) None
              [0, 1, 2] (Some (Iterator (GetDynamic (Str ''$items'')) ''v'' (Some ''k'')))])))
        None [0, 1] None),
      (\<lparr>root = d, FK_SCP = Map.empty\<rparr>, 3))"
  by (simp add: list_schema_def parse_object_def conditional_part_def let_part_def
      children_part_def children_truthy_def string_children_def
      startsWith_sigil_def parse_for_def parseAttrs.simps)

lemma list_schema_renders:
  assumes "\<And>r. ev h (Str ''$items'') r = r ''items''" and "\<And>r. ev h (Str ''$v'') r = r ''v''"
  shows "FormKitSchema h (Obj [(''items'', Obj [(''a'', Num (Fin 1)), (''b'', Num (Fin 2))])])
           list_schema [] =
         (Inr (VNode (Tag ''ul'') Null
            (VList [VList [VNode (Tag ''li'') Null (VStr (num_str h (Fin 1))),
                           VNode (Tag ''li'') Null (VStr (num_str h (Fin 2)))]])), [])"
  unfolding FormKitSchema_def list_schema_compiled
  by (simp add: assms repeatedNode_def call_opt_def call_condition_def loop_nodes_def
      get_values_def provide_def resolve_def getRef_def getRef_effect_def scope_sets_def
      read_prop_def checkScope_def loop_values_def isNaN_def frame_def assign_def)


text \<open>
  C4 (as amended). Of a call of the loop closure that returns: when the evaluated
  values are a number that is a valid array length \<open>n\<close>, the repeated node ran once for
  each \<open>i\<close> of \<open>0..n-1\<close>, in order, with the value name bound to \<open>i\<close> and the key name
  to the string of \<open>i\<close>; when they are an object or array that does not convert to a
  number, it ran once for each own key, in enumeration order, with the value name
  bound to the element under the key and the key name to the key. And the schema of
  the example, with \<^verbatim>\<open>items = {a: 1, b: 2}\<close>, renders a \<^verbatim>\<open>ul\<close> with two \<^verbatim>\<open>li\<close> children
  whose texts are the strings of 1 and 2, in that order.
\<close>

theorem loop_iteration:
  "(get_values h data scopes getValues st = Inr v \<and>
    createNodes h data
      (RenderNode condition element attrs children alternate scopes
         (Some (Iterator getValues valueName keyName))) st = (Inr out, st') \<longrightarrow>
      (typeof v = ''number'' \<and> new_Array (js_Number h v) = Inr n \<longrightarrow>
         st' = st \<and>
         (\<exists>rs. out = VList rs \<and> length rs = n \<and>
            (\<forall>i<n. createNodes h data
                      (RenderNode condition element attrs children alternate scopes None)
                      (st @ [Obj (assign [(valueName, Num (Fin (of_nat i)))]
                               (case keyName of Some k \<Rightarrow> [(k, Str (nat_str i))] | None \<Rightarrow> []))])
                    = (Inr (rs ! i),
                       st @ [Obj (assign [(valueName, Num (Fin (of_nat i)))]
                               (case keyName of Some k \<Rightarrow> [(k, Str (nat_str i))] | None \<Rightarrow> []))]))))
      \<and> (typeof v = ''object'' \<and> isNaN h v \<longrightarrow>
         st' = st \<and>
         (\<exists>rs. out = VList rs \<and>
            list_all2 (\<lambda>key r.
                createNodes h data
                  (RenderNode condition element attrs children alternate scopes None)
                  (st @ [Obj (assign [(valueName, getv v key)]
                           (case keyName of Some k \<Rightarrow> [(k, Str key)] | None \<Rightarrow> []))])
                = (Inr r,
                   st @ [Obj (assign [(valueName, getv v key)]
                           (case keyName of Some k \<Rightarrow> [(k, Str key)] | None \<Rightarrow> []))]))
              (own_keys v) rs)))
   \<and> ((\<forall>r. ev h (Str ''$items'') r = r ''items'') \<and> (\<forall>r. ev h (Str ''$v'') r = r ''v'') \<longrightarrow>
        FormKitSchema h (Obj [(''items'', Obj [(''a'', Num (Fin 1)), (''b'', Num (Fin 2))])])
          list_schema [] =
        (Inr (VNode (Tag ''ul'') Null
           (VList [VList [VNode (Tag ''li'') Null (VStr (num_str h (Fin 1))),
                          VNode (Tag ''li'') Null (VStr (num_str h (Fin 2)))]])), []))"
proof (intro conjI impI; (elim conjE)?)
  assume v: "get_values h data scopes getValues st = Inr v"
    and run: "createNodes h data
      (RenderNode condition element attrs children alternate scopes
         (Some (Iterator getValues valueName keyName))) st = (Inr out, st')"
  have body: "restores (createNodes h data
      (RenderNode condition element attrs children alternate scopes None))"
    using restores_all [of h data] by blast
  have run': "loop_nodes h data scopes (Iterator getValues valueName keyName)
      (createNodes h data (RenderNode condition element attrs children alternate scopes None)) st
      = (Inr out, st')"
    using run by simp
  {
    assume len: "new_Array (js_Number h v) = Inr n"
    have num: "st' = st \<and>
         (\<exists>rs. out = VList rs \<and> length rs = n \<and>
            (\<forall>i<n. createNodes h data
                      (RenderNode condition element attrs children alternate scopes None)
                      (st @ [Obj (assign [(valueName, Num (Fin (of_nat i)))]
                               (case keyName of Some k \<Rightarrow> [(k, Str (nat_str i))] | None \<Rightarrow> []))])
                    = (Inr (rs ! i),
                       st @ [Obj (assign [(valueName, Num (Fin (of_nat i)))]
                               (case keyName of Some k \<Rightarrow> [(k, Str (nat_str i))] | None \<Rightarrow> []))])))"
      using loop_numeric [OF body v new_Array_not_NaN [OF len] len run'] .
    from num show "st' = st" by blast
    from num show "\<exists>rs. out = VList rs \<and> length rs = n \<and>
            (\<forall>i<n. createNodes h data
                      (RenderNode condition element attrs children alternate scopes None)
                      (st @ [Obj (assign [(valueName, Num (Fin (of_nat i)))]
                               (case keyName of Some k \<Rightarrow> [(k, Str (nat_str i))] | None \<Rightarrow> []))])
                    = (Inr (rs ! i),
                       st @ [Obj (assign [(valueName, Num (Fin (of_nat i)))]
                               (case keyName of Some k \<Rightarrow> [(k, Str (nat_str i))] | None \<Rightarrow> []))]))"
      by blast
  }
  {
    assume obj: "typeof v = ''object''" and nan: "isNaN h v"
    have vals: "loop_values h v = Inr v" using nan by (simp add: loop_values_def)
    have ob: "st' = st \<and> (\<exists>rs. out = VList rs \<and>
            list_all2 (\<lambda>key r.
                createNodes h data
                  (RenderNode condition element attrs children alternate scopes None)
                  (st @ [Obj (assign [(valueName, getv v key)]
                           (case keyName of Some k \<Rightarrow> [(k, Str key)] | None \<Rightarrow> []))])
                = (Inr r,
                   st @ [Obj (assign [(valueName, getv v key)]
                           (case keyName of Some k \<Rightarrow> [(k, Str key)] | None \<Rightarrow> []))]))
              (own_keys v) rs)"
      using loop_nodes_returns [OF body v vals obj run'] by (simp add: frame_def)
    from ob show "st' = st" by blast
    from ob show "\<exists>rs. out = VList rs \<and>
            list_all2 (\<lambda>key r.
                createNodes h data
                  (RenderNode condition element attrs children alternate scopes None)
                  (st @ [Obj (assign [(valueName, getv v key)]
                           (case keyName of Some k \<Rightarrow> [(k, Str key)] | None \<Rightarrow> []))])
                = (Inr r,
                   st @ [Obj (assign [(valueName, getv v key)]
                           (case keyName of Some k \<Rightarrow> [(k, Str key)] | None \<Rightarrow> []))]))
              (own_keys v) rs"
      by blast
  }
next
  assume "\<forall>r. ev h (Str ''$items'') r = r ''items''" and "\<forall>r. ev h (Str ''$v'') r = r ''v''"
  then show "FormKitSchema h (Obj [(''items'', Obj [(''a'', Num (Fin 1)), (''b'', Num (Fin 2))])])
          list_schema [] =
        (Inr (VNode (Tag ''ul'') Null
           (VList [VList [VNode (Tag ''li'') Null (VStr (num_str h (Fin 1))),
                          VNode (Tag ''li'') Null (VStr (num_str h (Fin 2)))]])), [])"
    by (intro list_schema_renders) simp_all
qed

text \<open>
  C4 as stated fails twice: the number -1 is numeric and the loop throws a RangeError
  (no sequence is iterated); the array \<^verbatim>\<open>[5]\<close> is indexable and not a number, with the
  one own key \<^verbatim>\<open>0\<close>, yet it converts to 5 and the loop runs five times over 0..4.
\<close>

theorem loop_iteration_counterexample:
  "createNodes sample_host \<lparr>root = Obj [], FK_SCP = Map.empty\<rparr>
     (RenderNode None (Some (Tag ''li'')) ANull (Some (DynamicChildren (Str ''$v''))) None [0, 1]
        (Some (Iterator (GetStatic (Num (Fin (- 1)))) ''v'' None))) []
   = (Inl RangeError, []) \<and>
   own_keys (Arr [Num (Fin 5)]) = [''0''] \<and>
   createNodes sample_host \<lparr>root = Obj [], FK_SCP = Map.empty\<rparr>
     (RenderNode None (Some (Tag ''li'')) ANull (Some (DynamicChildren (Str ''$v''))) None [0, 1]
        (Some (Iterator (GetStatic (Arr [Num (Fin 5)])) ''v'' None))) []
   = (Inr (VList [VNode (Tag ''li'') Null (VStr ''0''), VNode (Tag ''li'') Null (VStr ''1''),
                  VNode (Tag ''li'') Null (VStr ''2''), VNode (Tag ''li'') Null (VStr ''3''),
                  VNode (Tag ''li'') Null (VStr ''4'')]), [])"
  by code_simp


theorem loop_iteration_witness:
  "FormKitSchema sample_host (Obj [(''items'', Obj [(''a'', Num (Fin 1)), (''b'', Num (Fin 2))])])
     list_schema [] =
   (Inr (VNode (Tag ''ul'') Null
      (VList [VList [VNode (Tag ''li'') Null (VStr ''1''),
                     VNode (Tag ''li'') Null (VStr ''2'')]])), [])
   \<and> createNodes sample_host \<lparr>root = Obj [], FK_SCP = Map.empty\<rparr>
        (RenderNode None (Some (Tag ''li'')) ANull (Some (DynamicChildren (Str ''$k''))) None [0, 1]
           (Some (Iterator (GetStatic (Num (Fin 2))) ''v'' (Some ''k'')))) [Obj [(''w'', Null)]]
      = (Inr (VList [VNode (Tag ''li'') Null (VStr ''0''), VNode (Tag ''li'') Null (VStr ''1'')]),
         [Obj [(''w'', Null)]])"
proof -
  have e1: "\<forall>r. ev sample_host (Str ''$items'') r = r ''items''"
    and e2: "\<forall>r. ev sample_host (Str ''$v'') r = r ''v''"
    by (simp_all add: sample_host_def)
  have s1: "num_str sample_host (Fin 1) = ''1''" and s2: "num_str sample_host (Fin 2) = ''2''"
    by code_simp+
  have g1: "get_values sample_host \<lparr>root = Obj [], FK_SCP = Map.empty\<rparr> [0, 1]
      (GetStatic (Num (Fin 2))) [Obj [(''w'', Null)]] = Inr (Num (Fin 2))"
    by (simp add: get_values_def)
  have r1: "createNodes sample_host \<lparr>root = Obj [], FK_SCP = Map.empty\<rparr>
        (RenderNode None (Some (Tag ''li'')) ANull (Some (DynamicChildren (Str ''$k''))) None [0, 1]
           (Some (Iterator (GetStatic (Num (Fin 2))) ''v'' (Some ''k'')))) [Obj [(''w'', Null)]]
      = (Inr (VList [VNode (Tag ''li'') Null (VStr ''0''), VNode (Tag ''li'') Null (VStr ''1'')]),
         [Obj [(''w'', Null)]])"
    by code_simp
  have n1: "typeof (Num (Fin 2)) = ''number''"
    and n2: "new_Array (js_Number sample_host (Num (Fin 2))) = Inr 2"
    by code_simp+
  show ?thesis
    using loop_iteration [of sample_host "\<lparr>root = Obj [], FK_SCP = Map.empty\<rparr>" "[0, 1]"
        "GetStatic (Num (Fin 2))" "[Obj [(''w'', Null)]]" "Num (Fin 2)" None "Some (Tag ''li'')"
        ANull "Some (DynamicChildren (Str ''$k''))" None "''v''" "Some ''k''"
        "VList [VNode (Tag ''li'') Null (VStr ''0''), VNode (Tag ''li'') Null (VStr ''1'')]"
        "[Obj [(''w'', Null)]]" 2]
      e1 e2 s1 s2 g1 r1 n1 n2
    by simp
qed


section \<open>Which iteration frame a token resolves to\<close>




section \<open>Scope paths and let bindings of a compiled tree\<close>







































section \<open>The sigil of a dynamic value\<close>










section \<open>Every call of an attribute closure returns a new object\<close>

lemma run_setters_frame:
  "run_setters h data scopes st a entries hp = (res, hp') \<Longrightarrow>
   next_cell hp' = next_cell hp \<and> (\<forall>i. i \<noteq> a \<longrightarrow> cells hp' i = cells hp i)"
proof (induction entries arbitrary: hp)
  case Nil
  then show ?case by simp
next
  case (Cons e entries)
  obtain attr c where e: "e = (attr, c)" by (cases e)
  show ?case
  proof (cases "has_setter c")
    case False
    then show ?thesis using Cons e by simp
  next
    case True
    show ?thesis
    proof (cases "call_attr h data scopes st c")
      case (Inl err)
      then show ?thesis using Cons.prems e True by simp
    next
      case (Inr v)
      then have "run_setters h data scopes st a entries (object_assign a [(attr, v)] hp) = (res, hp')"
        using Cons.prems e True by simp
      from Cons.IH [OF this] show ?thesis by (simp add: object_assign_def)
    qed
  qed
qed

lemma run_setters_cell:
  assumes "cells hq a = cells hp a"
  shows "fst (run_setters h data scopes st a entries hq) = fst (run_setters h data scopes st a entries hp)
     \<and> cells (snd (run_setters h data scopes st a entries hq)) a
       = cells (snd (run_setters h data scopes st a entries hp)) a"
  using assms
proof (induction entries arbitrary: hp hq)
  case Nil
  then show ?case by simp
next
  case (Cons e entries)
  obtain attr c where e: "e = (attr, c)" by (cases e)
  show ?case
  proof (cases "has_setter c")
    case False
    then show ?thesis using Cons.IH [OF Cons.prems] e by simp
  next
    case True
    show ?thesis
    proof (cases "call_attr h data scopes st c")
      case (Inl err)
      then show ?thesis using Cons.prems e True by simp
    next
      case (Inr v)
      have eq: "cells (object_assign a [(attr, v)] hq) a = cells (object_assign a [(attr, v)] hp) a"
        using Cons.prems by (simp add: object_assign_def)
      show ?thesis
        using Cons.IH [OF eq] e True Inr by simp
    qed
  qed
qed

lemma parseAttrs_closure_allocated:
  "parseAttrs_closure u hp0 = Some (cl, hp) \<Longrightarrow> attrs_ref cl < next_cell hp"
  by (auto simp: parseAttrs_closure_def new_object_def split: cattrs.splits)

lemma call_closure_result:
  assumes "call_closure h data scopes st cl hp = (Inr r, hp')"
  shows "r = next_cell hp \<and> next_cell hp' = Suc r
    \<and> fst (run_setters h data scopes st (attrs_ref cl) (setters cl) hp) = None
    \<and> cells hp' r = Some (case cells (snd (run_setters h data scopes st (attrs_ref cl) (setters cl) hp))
                                  (attrs_ref cl) of Some props \<Rightarrow> props | None \<Rightarrow> [])
    \<and> (\<forall>i. i \<noteq> r \<and> i \<noteq> attrs_ref cl \<longrightarrow> cells hp' i = cells hp i)"
proof -
  obtain res hp1 where rs: "run_setters h data scopes st (attrs_ref cl) (setters cl) hp = (res, hp1)"
    by (cases "run_setters h data scopes st (attrs_ref cl) (setters cl) hp")
  have fr: "next_cell hp1 = next_cell hp" "\<forall>i. i \<noteq> attrs_ref cl \<longrightarrow> cells hp1 i = cells hp i"
    using run_setters_frame [OF rs] by simp_all
  have res: "res = None" using assms rs by (cases res) (simp_all add: call_closure_def)
  have out: "r = next_cell hp1"
    "hp' = hp1\<lparr>cells := (cells hp1)(next_cell hp1 \<mapsto>
        (case cells hp1 (attrs_ref cl) of Some props \<Rightarrow> props | None \<Rightarrow> [])),
      next_cell := Suc (next_cell hp1)\<rparr>"
    using assms rs res by (auto simp: call_closure_def new_object_def)
  show ?thesis using fr res by (simp add: out rs)
qed

text \<open>
  C7. Let a closure be compiled by parseAttrs from a non-conditional attribute map, and
  let it be called twice, now or later, the object that the first call returned being
  changed at will in between. Then the second call returns another object than the
  first, neither is the object \<^verbatim>\<open>attrs\<close> of the closure, the second call leaves the
  first object as it was changed, and the second object is what the call returns when
  the first object is not changed at all.
\<close>

theorem attrs_closure_fresh:
  assumes "parseAttrs_closure unparsedAttrs hp0 = Some (cl, hpc)"
    and "next_cell hpc \<le> next_cell hp"
    and "call_closure h data scopes st cl hp = (Inr r1, hp1)"
    and "call_closure h data' scopes st' cl (hp1\<lparr>cells := (cells hp1)(r1 \<mapsto> mutated)\<rparr>)
           = (Inr r2, hp2)"
  shows "r2 \<noteq> r1 \<and> r1 \<noteq> attrs_ref cl \<and> r2 \<noteq> attrs_ref cl
    \<and> cells hp2 r1 = Some mutated
    \<and> (\<exists>hp2'. call_closure h data' scopes st' cl hp1 = (Inr r2, hp2')
           \<and> cells hp2 r2 = cells hp2' r2)"
proof -
  let ?a = "attrs_ref cl"
  let ?hm = "hp1\<lparr>cells := (cells hp1)(r1 \<mapsto> mutated)\<rparr>"
  have a: "?a < next_cell hp"
    using parseAttrs_closure_allocated [OF assms(1)] assms(2) by simp
  note c1 = call_closure_result [OF assms(3)]
  note c2 = call_closure_result [OF assms(4)]
  have r1: "r1 = next_cell hp" and r2: "r2 = Suc r1"
    using c1 c2 by simp_all
  have ne: "r1 \<noteq> ?a" using a r1 by simp
  have same: "cells ?hm ?a = cells hp1 ?a" using ne by simp
  note rc = run_setters_cell [OF same, of h data' scopes st' "setters cl"]
  have none: "fst (run_setters h data' scopes st' ?a (setters cl) hp1) = None"
    using rc c2 by simp
  obtain hq where hq: "run_setters h data' scopes st' ?a (setters cl) hp1 = (None, hq)"
    using none by (cases "run_setters h data' scopes st' ?a (setters cl) hp1") simp
  have nq: "next_cell hq = next_cell hp1"
    using run_setters_frame [OF hq] by simp
  obtain hp2' where call: "call_closure h data' scopes st' cl hp1 = (Inr r2, hp2')"
    and cell: "cells hp2' r2 = Some (case cells hq ?a of Some props \<Rightarrow> props | None \<Rightarrow> [])"
    using hq nq c1 r2 by (simp add: call_closure_def new_object_def)
  have "cells (snd (run_setters h data' scopes st' ?a (setters cl) ?hm)) ?a = cells hq ?a"
    using rc hq by simp
  moreover have "cells hp2 r2 = Some (case cells
      (snd (run_setters h data' scopes st' ?a (setters cl) ?hm)) ?a of
        Some props \<Rightarrow> props | None \<Rightarrow> [])"
    using c2 by blast
  ultimately have "cells hp2 r2 = cells hp2' r2"
    by (simp only: cell)
  moreover have "cells hp2 r1 = Some mutated"
    using c2 ne r2 by simp
  ultimately show ?thesis using ne r2 a r1 call by auto
qed

lemma update_middle:
  "k \<notin> fst ` set xs \<Longrightarrow> AList.update k v (xs @ (k, t) # ys) = xs @ (k, v) # ys"
  by (induction xs) auto

lemma assign_fresh:
  "distinct (map fst xs) \<Longrightarrow> fst ` set xs \<inter> fst ` set ys = {} \<Longrightarrow> assign ys xs = ys @ xs"
  unfolding assign_def
proof (induction xs arbitrary: ys)
  case Nil
  show ?case by simp
next
  case (Cons x xs)
  obtain k v where x: "x = (k, v)" by (cases x)
  have k: "k \<notin> fst ` set ys" using Cons.prems(2) x by auto
  have upd: "AList.update k v ys = ys @ [(k, v)]"
    using k by (induction ys) auto
  have "fst ` set xs \<inter> fst ` set (ys @ [(k, v)]) = {}"
    using Cons.prems x by auto
  then show ?case
    using Cons.IH [of "ys @ [(k, v)]"] Cons.prems(1) x upd by simp
qed

lemma initial_attrs_holds:
  assumes "distinct (map fst entries)"
  shows "holds_statics entries (initial_attrs entries)"
proof -
  let ?f = "\<lambda>(attr, c). (attr, case c of AStatic v \<Rightarrow> v | _ \<Rightarrow> Undefined)"
  have keys: "map fst (map ?f entries) = map fst entries" by (induction entries) auto
  have "distinct (map fst (map ?f entries))" unfolding keys by (rule assms)
  then have "assign [] (map ?f entries) = [] @ map ?f entries"
    by (rule assign_fresh) simp
  then have "initial_attrs entries = map ?f entries"
    by (simp add: initial_attrs_def)
  moreover have "list_all2 (\<lambda>e p. fst p = fst e \<and> (has_setter (snd e) \<or> AStatic (snd p) = snd e))
      entries (map ?f entries)"
  proof (induction entries)
    case Nil
    show ?case by simp
  next
    case (Cons e entries)
    obtain k c where "e = (k, c)" by (cases e)
    then show ?case using Cons by (cases c) simp_all
  qed
  ultimately show ?thesis by (simp add: holds_statics_def)
qed

lemma run_setters_refines:
  assumes "distinct (map fst done @ map fst rest)"
    and "cells hp a = Some (done @ todo)"
    and "holds_statics rest todo"
    and "call_setters h data scopes st rest = Inr vals"
  shows "\<exists>hp'. run_setters h data scopes st a rest hp = (None, hp') \<and> cells hp' a = Some (done @ vals)
     \<and> holds_statics rest vals"
  using assms
proof (induction rest arbitrary: "done" todo hp vals)
  case Nil
  then show ?case by (simp add: holds_statics_def)
next
  case (Cons e rest)
  obtain k c where e: "e = (k, c)" by (cases e)
  obtain p todo' where todo: "todo = p # todo'" and p: "fst p = k" "has_setter c \<or> AStatic (snd p) = c"
    and rest: "holds_statics rest todo'"
    using Cons.prems(3) e by (auto simp: holds_statics_def list_all2_Cons1)
  obtain v vals' where v: "call_attr h data scopes st c = Inr v"
    and vals': "call_setters h data scopes st rest = Inr vals'" and vals: "vals = (k, v) # vals'"
    using Cons.prems(4) e by (auto split: sum.splits)
  have k: "k \<notin> fst ` set done" using Cons.prems(1) e by auto
  have dist: "distinct (map fst (done @ [(k, v)]) @ map fst rest)"
    using Cons.prems(1) e by auto
  have pk: "p = (k, snd p)" using p(1) by (cases p) simp
  show ?case
  proof (cases "has_setter c")
    case True
    let ?hp = "object_assign a [(k, v)] hp"
    have "cells ?hp a = Some ((done @ [(k, v)]) @ todo')"
      using Cons.prems(2) todo pk update_middle [OF k, of v "snd p" todo']
      by (simp add: object_assign_def assign_def)
    from Cons.IH [OF dist this rest vals'] obtain hp' where
      "run_setters h data scopes st a rest ?hp = (None, hp')"
      "cells hp' a = Some ((done @ [(k, v)]) @ vals')" "holds_statics rest vals'"
      by blast
    then show ?thesis using e True v vals by (simp add: holds_statics_def)
  next
    case False
    then have c: "c = AStatic (snd p)" using p(2) by simp
    then have vp: "v = snd p" using v by simp
    have "cells hp a = Some ((done @ [(k, v)]) @ todo')"
      using Cons.prems(2) todo pk vp by simp
    from Cons.IH [OF dist this rest vals'] obtain hp' where
      "run_setters h data scopes st a rest hp = (None, hp')"
      "cells hp' a = Some ((done @ [(k, v)]) @ vals')" "holds_statics rest vals'"
      by blast
    then show ?thesis using e False vals c vp by (simp add: holds_statics_def)
  qed
qed

lemma call_closure_refines:
  assumes "distinct (map fst entries)"
    and "cells hp a = Some props" and "holds_statics entries props"
    and "call_attrs h data scopes st (AMap entries) = Inr (Obj vals)"
  shows "\<exists>hp'. call_closure h data scopes st (AttrsClosure a entries) hp = (Inr (next_cell hp), hp')
     \<and> cells hp' (next_cell hp) = Some vals"
proof -
  have cs: "call_setters h data scopes st entries = Inr vals"
    using assms(4) by (auto split: sum.splits)
  from run_setters_refines [of "[]" entries hp a props h data scopes st vals] assms(1-3) cs
  obtain hp' where r: "run_setters h data scopes st a entries hp = (None, hp')"
    and c: "cells hp' a = Some vals"
    by auto
  have "next_cell hp' = next_cell hp" using run_setters_frame [OF r] by simp
  then show ?thesis
    using r c by (simp add: call_closure_def new_object_def)
qed

theorem attrs_closure_fresh_witness:
  "fst (call_closure sample_host example_data [0, 1] [] example_closure heap_after_compile) = Inr 1
   \<and> fst (call_closure sample_host example_data [0, 1] [] example_closure
        (heap_after_call\<lparr>cells := (cells heap_after_call)(1 \<mapsto> [(''id'', Str ''changed'')])\<rparr>))
      = Inr 2
   \<and> cells (snd (call_closure sample_host example_data [0, 1] [] example_closure
        (heap_after_call\<lparr>cells := (cells heap_after_call)(1 \<mapsto> [(''id'', Str ''changed'')])\<rparr>))) 2
      = Some [(''id'', Str ''a''), (''data-x'', Num (Fin 2))]
   \<and> cells (snd (call_closure sample_host example_data [0, 1] [] example_closure
        (heap_after_call\<lparr>cells := (cells heap_after_call)(1 \<mapsto> [(''id'', Str ''changed'')])\<rparr>))) 1
      = Some [(''id'', Str ''changed'')]"
proof -
  let ?hm = "heap_after_call\<lparr>cells := (cells heap_after_call)(1 \<mapsto> [(''id'', Str ''changed'')])\<rparr>"
  let ?hp2 = "snd (call_closure sample_host example_data [0, 1] [] example_closure ?hm)"
  have h1: "parseAttrs_closure example_attrs \<lparr>cells = Map.empty, next_cell = 0\<rparr>
      = Some (example_closure, heap_after_compile)"
    by (simp add: parseAttrs_closure_def example_attrs_def parseAttrs.simps isConditional_def
        startsWith_sigil_def new_object_def initial_attrs_def assign_def example_closure_def
        heap_after_compile_def)
  have h2: "next_cell heap_after_compile \<le> next_cell heap_after_compile" by simp
  have h3: "call_closure sample_host example_data [0, 1] [] example_closure heap_after_compile
      = (Inr 1, heap_after_call)"
    by (simp add: call_closure_def example_closure_def heap_after_compile_def heap_after_call_def
        object_assign_def assign_def new_object_def provide_def resolve_def getRef_def
        getRef_effect_def scope_sets_def example_data_def sample_host_def checkScope_def
        read_prop_def fun_upd_twist)
  have h4: "call_closure sample_host example_data [0, 1] [] example_closure ?hm = (Inr 2, ?hp2)"
    by (simp add: call_closure_def example_closure_def heap_after_call_def
        object_assign_def assign_def new_object_def provide_def resolve_def getRef_def
        getRef_effect_def scope_sets_def example_data_def sample_host_def checkScope_def
        read_prop_def)
  have c2: "cells ?hp2 2 = Some [(''id'', Str ''a''), (''data-x'', Num (Fin 2))]"
    by (simp add: call_closure_def example_closure_def heap_after_call_def
        object_assign_def assign_def new_object_def provide_def resolve_def getRef_def
        getRef_effect_def scope_sets_def example_data_def sample_host_def checkScope_def
        read_prop_def)
  have c1: "cells ?hp2 1 = Some [(''id'', Str ''changed'')]"
    using attrs_closure_fresh [OF h1 h2 h3 h4] by blast
  have f1: "fst (call_closure sample_host example_data [0, 1] [] example_closure heap_after_compile)
      = Inr 1"
    by (simp only: h3 fst_conv)
  have "fst (call_closure sample_host example_data [0, 1] [] example_closure ?hm)
      = fst (Inr 2 :: error + nat, ?hp2)"
    by (rule arg_cong [OF h4])
  then have f2: "fst (call_closure sample_host example_data [0, 1] [] example_closure ?hm) = Inr 2"
    by (simp only: fst_conv)
  show ?thesis by (intro conjI f1 f2 c2 c1)
qed

end
